theory Spec2Isabelle
  imports Complex_Main "HOL-Library.Sublist"
begin

section \<open>Strings\<close>




section \<open>Decoded JSON bodies and exceptions\<close>



text \<open>
  The exceptions that leave the modelled functions. \<open>HTTPError msg\<close> is
  \<^verbatim>\<open>requests.HTTPError(msg)\<close> with a message taken from the body's \<^verbatim>\<open>error\<close> field;
  \<open>HTTPStatusError code\<close> is a \<^verbatim>\<open>requests.HTTPError\<close> whose text is built from the
  status code alone (by \<^verbatim>\<open>raise_for_status\<close>, or the \<^verbatim>\<open>f"HTTP {status}"\<close> of
  \<^verbatim>\<open>request_json\<close>). \<open>AttributeError\<close> is what \<^verbatim>\<open>.get\<close> on a body that is no
  dictionary and \<^verbatim>\<open>.lower()\<close> on an \<^verbatim>\<open>error\<close> field that is no string raise.
  \<open>KeyError\<close> is a dictionary read at a key that is absent. \<open>OtherError\<close> stands
  for every other exception (connection failures, \<^verbatim>\<open>RuntimeError\<close>,
  \<^verbatim>\<open>ValueError\<close>, ...).
\<close>

datatype error =
    TooManyRequestsError
  | HTTPError string
  | HTTPStatusError int
  | AttributeError
  | KeyError
  | OtherError string

section \<open>The result classifier \<^verbatim>\<open>request_json\<close>\<close>





section \<open>The persisted staking state\<close>

text \<open>
  A timestamp field of the state file holds \<^verbatim>\<open>None\<close> or a string. A string that
  \<^verbatim>\<open>datetime.fromisoformat\<close> accepts is kept by the instant it denotes, \<open>Iso t\<close> with
  \<open>t\<close> in microseconds (a naive timestamp read in the zone \<^verbatim>\<open>TZ\<close>); \<open>Garbled\<close> is
  every other content, the empty string included.
\<close>

datatype stamp = Iso int | Garbled

record row =
  name :: string
  staked :: bool
  last_stake_at :: "stamp option"
  last_claim_at :: "stamp option"
  last_unstake_at :: "stamp option"

text \<open>
  The state dictionary \<^verbatim>\<open>st\<close>: \<open>None\<close> when it has no key \<^verbatim>\<open>"accounts"\<close>, and
  otherwise the dictionary from account address to that account's \<^verbatim>\<open>"subnets"\<close>
  dictionary, which maps a subnet address to its row.
\<close>

type_synonym subnets = "string \<rightharpoonup> row"
type_synonym state = "(string \<rightharpoonup> subnets) option"

definition SUBNETS :: "(string \<times> string) list" where
  "SUBNETS =
     [(''Kite AI Agents'', ''0xb132001567650917d6bd695d1fab55db7986e9a5''),
      (''Bitte'', ''0xca312b44a57cc9fd60f37e6c9a343a1ad92a3b6c''),
      (''Bitmind'', ''0xc368ae279275f80125284d16d292b650ecbbff8d'')]"

definition SUBNET_ORDER :: "string list" where
  "SUBNET_ORDER = [''Kite AI Agents'', ''Bitte'', ''Bitmind'']"

text \<open>
  The pairs \<^verbatim>\<open>(name, SUBNETS[name])\<close> that \<^verbatim>\<open>for name in SUBNET_ORDER\<close> visits, in
  order. Every name of \<open>SUBNET_ORDER\<close> is a key of \<open>SUBNETS\<close>, so no read fails.
\<close>

definition targets :: "(string \<times> string) list" where
  "targets = List.map_filter (\<lambda>n. map_option (Pair n) (map_of SUBNETS n)) SUBNET_ORDER"

definition STAKE_MIN :: rat where
  "STAKE_MIN = 1"

definition UNSTAKE_AFTER_HOURS :: rat where
  "UNSTAKE_AFTER_HOURS = 24"

definition default_row :: "string \<Rightarrow> row" where
  "default_row n =
     \<lparr>name = n, staked = False, last_stake_at = None, last_claim_at = None,
      last_unstake_at = None\<rparr>"

definition ensure_subnet :: "subnets \<Rightarrow> string \<times> string \<Rightarrow> subnets" where
  "ensure_subnet sub t =
     (case t of (n, addr) \<Rightarrow> if sub addr = None then sub(addr \<mapsto> default_row n) else sub)"

definition ensure_account_state :: "state \<Rightarrow> string \<Rightarrow> state" where
  "ensure_account_state st address =
     (let accounts = (case st of None \<Rightarrow> Map.empty | Some a \<Rightarrow> a);
          sub = (case accounts address of None \<Rightarrow> Map.empty | Some s \<Rightarrow> s)
      in Some (accounts(address \<mapsto> foldl ensure_subnet sub targets)))"

text \<open>\<^verbatim>\<open>st["accounts"][address]["subnets"]\<close>, a \<^verbatim>\<open>KeyError\<close> when a key is absent.\<close>

definition subnets_of :: "state \<Rightarrow> string \<Rightarrow> error + subnets" where
  "subnets_of st address =
     (case st of
        None \<Rightarrow> Inl KeyError
      | Some accounts \<Rightarrow>
          (case accounts address of None \<Rightarrow> Inl KeyError | Some sub \<Rightarrow> Inr sub))"

text \<open>
  In the source \<^verbatim>\<open>acct\<close> is the dictionary inside \<^verbatim>\<open>st\<close> itself, so an update of a
  row is an update of \<^verbatim>\<open>st\<close>. The model carries \<^verbatim>\<open>acct\<close> on its own and
  \<open>with_subnets\<close> puts it back where \<^verbatim>\<open>st\<close> is read as a whole.
\<close>

definition with_subnets :: "state \<Rightarrow> string \<Rightarrow> subnets \<Rightarrow> state" where
  "with_subnets st address sub =
     Some ((case st of None \<Rightarrow> Map.empty | Some a \<Rightarrow> a)(address \<mapsto> sub))"

section \<open>The staking cycle\<close>

text \<open>
  \<^verbatim>\<open>hours_since\<close>. The clock and the subtraction are the environment's: \<open>elapsed t\<close>
  is the double \<^verbatim>\<open>(now_jkt() - t).total_seconds() / 3600.0\<close>, a rational number. A
  missing or unparseable timestamp gives \<open>None\<close>.
\<close>

definition hours_since :: "(int \<Rightarrow> rat) \<Rightarrow> stamp option \<Rightarrow> rat option" where
  "hours_since elapsed ts_iso =
     (case ts_iso of
        None \<Rightarrow> None
      | Some Garbled \<Rightarrow> None
      | Some (Iso t) \<Rightarrow> Some (elapsed t))"

text \<open>\<^verbatim>\<open>x or 0.0\<close> for an optional float \<open>x\<close>.\<close>

definition or_zero :: "rat option \<Rightarrow> rat" where
  "or_zero x = (case x of None \<Rightarrow> 0 | Some h \<Rightarrow> if h = 0 then 0 else h)"

datatype phase = Stake | Claim | Unstake | Restake

text \<open>
  The remote operations a cycle issues: \<open>GetBalances\<close> is \<^verbatim>\<open>get_balances\<close>;
  \<open>Call Stake a\<close> and \<open>Call Restake a\<close> are \<^verbatim>\<open>delegate(.., a, 1)\<close> in the stake and
  in the re-stake phase, \<open>Call Claim a\<close> is \<^verbatim>\<open>claim_rewards(.., a)\<close> and
  \<open>Call Unstake a\<close> is \<^verbatim>\<open>undelegate(.., a, 1)\<close>.
\<close>

datatype call = GetBalances | Call phase string

text \<open>
  What the remote service and the clock do during one cycle. Each phase calls each
  subnet at most once, so the answers are indexed by phase and subnet address.
  \<^item> \<open>balance_first\<close>, \<open>balance_again\<close>: the two \<^verbatim>\<open>get_balances\<close> calls, \<open>Inr (kite, usdt)\<close>
    or the exception raised;
  \<^item> \<open>remote p a\<close>: the outcome of the \<^verbatim>\<open>try\<close> body of phase \<open>p\<close> for subnet \<open>a\<close> up
    to its first assignment to the row: \<open>Inr ()\<close> when the call returned and its
    answer was printed, \<open>Inl e\<close> when \<open>e\<close> was raised there;
  \<^item> \<open>now p a\<close>: the instant \<^verbatim>\<open>ts_now_iso()\<close> writes after that call, in microseconds;
  \<^item> \<open>elapsed a t\<close>: the hours \<^verbatim>\<open>hours_since\<close> computes for the instant \<open>t\<close> when
    the unstake phase looks at subnet \<open>a\<close>;
  \<^item> \<open>minus_one b\<close>: the double \<^verbatim>\<open>b - 1.0\<close>.
  Balances and hours are doubles, which are rational numbers; only their
  comparisons are computed here.
\<close>

record staking_env =
  balance_first :: "error + rat \<times> rat"
  balance_again :: "error + rat \<times> rat"
  remote :: "phase \<Rightarrow> string \<Rightarrow> error + unit"
  now :: "phase \<Rightarrow> string \<Rightarrow> int"
  elapsed :: "string \<Rightarrow> int \<Rightarrow> rat"
  minus_one :: "rat \<Rightarrow> rat"

text \<open>The local variables of \<^verbatim>\<open>staking_cycle\<close>, and the calls issued so far.\<close>

record cyc =
  acct :: subnets
  kite_bal :: rat
  staked_count :: nat
  claimed_count :: nat
  unstaked_count :: nat
  calls :: "call list"

text \<open>
  How a loop body ends: \<open>Next\<close> goes on with the loop, \<open>Return\<close> is the
  \<^verbatim>\<open>state_save(st); return ...\<close> of a throttled call, \<open>Raise\<close> an exception that
  no handler catches.
\<close>

datatype flow = Next cyc | Return cyc | Raise error

fun for_targets :: "(string \<times> string \<Rightarrow> cyc \<Rightarrow> flow) \<Rightarrow> (string \<times> string) list \<Rightarrow> cyc \<Rightarrow> flow" where
  "for_targets body [] c = Next c"
| "for_targets body (t # ts) c =
     (case body t c of
        Next c' \<Rightarrow> for_targets body ts c'
      | Return c' \<Rightarrow> Return c'
      | Raise e \<Rightarrow> Raise e)"

definition and_then :: "flow \<Rightarrow> (cyc \<Rightarrow> flow) \<Rightarrow> flow" where
  "and_then f k = (case f of Next c \<Rightarrow> k c | Return c \<Rightarrow> Return c | Raise e \<Rightarrow> Raise e)"

definition issue :: "call \<Rightarrow> cyc \<Rightarrow> cyc" where
  "issue x c = c\<lparr>calls := calls c @ [x]\<rparr>"

text \<open>The body of the stake loop; the re-stake loop has the same body.\<close>

definition stake_step :: "staking_env \<Rightarrow> phase \<Rightarrow> string \<times> string \<Rightarrow> cyc \<Rightarrow> flow" where
  "stake_step env p t c =
     (case t of (n, subnet) \<Rightarrow>
        (case acct c subnet of
           None \<Rightarrow> Raise KeyError
         | Some r \<Rightarrow>
             if \<not> staked r \<and> kite_bal c \<ge> STAKE_MIN then
               (case remote env p subnet of
                  Inr _ \<Rightarrow>
                    Next ((issue (Call p subnet) c)
                      \<lparr>acct := (acct c)(subnet \<mapsto>
                          r\<lparr>staked := True, last_stake_at := Some (Iso (now env p subnet))\<rparr>),
                        kite_bal := minus_one env (kite_bal c),
                        staked_count := staked_count c + 1\<rparr>)
                | Inl TooManyRequestsError \<Rightarrow> Return (issue (Call p subnet) c)
                | Inl _ \<Rightarrow> Next (issue (Call p subnet) c))
             else Next c))"

definition claim_step :: "staking_env \<Rightarrow> string \<times> string \<Rightarrow> cyc \<Rightarrow> flow" where
  "claim_step env t c =
     (case t of (n, subnet) \<Rightarrow>
        (case acct c subnet of
           None \<Rightarrow> Raise KeyError
         | Some r \<Rightarrow>
             if staked r then
               (case remote env Claim subnet of
                  Inr _ \<Rightarrow>
                    Next ((issue (Call Claim subnet) c)
                      \<lparr>acct := (acct c)(subnet \<mapsto>
                          r\<lparr>last_claim_at := Some (Iso (now env Claim subnet))\<rparr>),
                        claimed_count := claimed_count c + 1\<rparr>)
                | Inl TooManyRequestsError \<Rightarrow> Return (issue (Call Claim subnet) c)
                | Inl _ \<Rightarrow> Next (issue (Call Claim subnet) c))
             else Next c))"

definition unstake_step :: "staking_env \<Rightarrow> string \<times> string \<Rightarrow> cyc \<Rightarrow> flow" where
  "unstake_step env t c =
     (case t of (n, subnet) \<Rightarrow>
        (case acct c subnet of
           None \<Rightarrow> Raise KeyError
         | Some r \<Rightarrow>
             if staked r then
               (let hrs = or_zero (hours_since (elapsed env subnet) (last_stake_at r)) in
                if hrs \<ge> UNSTAKE_AFTER_HOURS then
                  (case remote env Unstake subnet of
                     Inr _ \<Rightarrow>
                       Next ((issue (Call Unstake subnet) c)
                         \<lparr>acct := (acct c)(subnet \<mapsto>
                             r\<lparr>staked := False,
                               last_unstake_at := Some (Iso (now env Unstake subnet))\<rparr>),
                           unstaked_count := unstaked_count c + 1\<rparr>)
                   | Inl TooManyRequestsError \<Rightarrow> Return (issue (Call Unstake subnet) c)
                   | Inl _ \<Rightarrow> Next (issue (Call Unstake subnet) c))
                else Next c)
             else Next c))"

text \<open>
  A balance as \<^verbatim>\<open>staking_cycle\<close> uses it after \<^verbatim>\<open>except Exception\<close>: the fetched
  amount, or \<open>0\<close> when the fetch raised.
\<close>

definition kite_or_zero :: "error + rat \<times> rat \<Rightarrow> rat" where
  "kite_or_zero b = (case b of Inr (kite, usdt) \<Rightarrow> kite | Inl _ \<Rightarrow> 0)"

definition stake_phase :: "staking_env \<Rightarrow> phase \<Rightarrow> cyc \<Rightarrow> flow" where
  "stake_phase env p c =
     (if kite_bal c \<ge> STAKE_MIN then for_targets (stake_step env p) targets c else Next c)"

definition claim_phase :: "staking_env \<Rightarrow> cyc \<Rightarrow> flow" where
  "claim_phase env c = for_targets (claim_step env) targets c"

definition unstake_phase :: "staking_env \<Rightarrow> cyc \<Rightarrow> flow" where
  "unstake_phase env c = for_targets (unstake_step env) targets c"

definition restake_phase :: "staking_env \<Rightarrow> cyc \<Rightarrow> flow" where
  "restake_phase env c =
     stake_phase env Restake
       ((issue GetBalances c)\<lparr>kite_bal := kite_or_zero (balance_again env)\<rparr>)"

definition run_phases :: "staking_env \<Rightarrow> cyc \<Rightarrow> flow" where
  "run_phases env c =
     and_then (stake_phase env Stake c) (\<lambda>c1.
     and_then (claim_phase env c1) (\<lambda>c2.
     and_then (unstake_phase env c2) (\<lambda>c3.
       restake_phase env c3)))"

text \<open>
  What one call of \<^verbatim>\<open>staking_cycle\<close> leaves behind: the returned counters, the
  dictionary \<^verbatim>\<open>st\<close> as it is in memory at the return, what \<^verbatim>\<open>state_save\<close> wrote to
  the state file (\<open>None\<close> when it was not called) and the remote calls issued.
\<close>

record cycle_result =
  counts :: "nat \<times> nat \<times> nat"
  memory :: state
  saved :: "state option"
  issued :: "call list"

definition saving :: "state \<Rightarrow> string \<Rightarrow> cyc \<Rightarrow> cycle_result" where
  "saving st address c =
     \<lparr>counts = (staked_count c, claimed_count c, unstaked_count c),
      memory = with_subnets st address (acct c),
      saved = Some (with_subnets st address (acct c)),
      issued = calls c\<rparr>"

text \<open>
  \<^verbatim>\<open>staking_cycle\<close>, from the dictionary \<open>st\<close> that \<^verbatim>\<open>state_load\<close> returned. Console
  output is left out, and with it the table of active stakes printed when the
  balance is below the minimum.
\<close>

definition staking_cycle :: "staking_env \<Rightarrow> state \<Rightarrow> string \<Rightarrow> error + cycle_result" where
  "staking_cycle env st address =
     (let st1 = ensure_account_state st address in
      case subnets_of st1 address of
        Inl e \<Rightarrow> Inl e
      | Inr sub \<Rightarrow>
          (case balance_first env of
             Inl TooManyRequestsError \<Rightarrow>
               Inr \<lparr>counts = (0, 0, 0), memory = st1, saved = None, issued = [GetBalances]\<rparr>
           | b \<Rightarrow>
               (case run_phases env
                       \<lparr>acct = sub, kite_bal = kite_or_zero b, staked_count = 0,
                        claimed_count = 0, unstaked_count = 0, calls = [GetBalances]\<rparr> of
                  Next c \<Rightarrow> Inr (saving st1 address c)
                | Return c \<Rightarrow> Inr (saving st1 address c)
                | Raise e \<Rightarrow> Inl e)))"

section \<open>The chat budget allocator\<close>

definition GLOBAL_DAILY_CHAT_CAP :: nat where
  "GLOBAL_DAILY_CHAT_CAP = 9"

definition AGENT_ORDER :: "string list" where
  "AGENT_ORDER =
     [''Professor'', ''Crypto Buddy'', ''Sherlock'',
      ''Zane'', ''Vyn'', ''Avril'', ''Noa'', ''Diane'', ''Sakura'']"

text \<open>
  What happened inside the \<^verbatim>\<open>try\<close> of \<^verbatim>\<open>_send_one_chat\<close>: it ran to its end, it
  raised \<^verbatim>\<open>TooManyRequestsError\<close>, or it raised another exception. The function
  returns the pair \<^verbatim>\<open>(ok, rate_limited)\<close>.
\<close>

datatype chat_outcome = ChatOk | ChatThrottled | ChatFailed

fun send_one_chat :: "chat_outcome \<Rightarrow> bool \<times> bool" where
  "send_one_chat ChatOk = (True, False)"
| "send_one_chat ChatThrottled = (False, True)"
| "send_one_chat ChatFailed = (False, False)"

text \<open>
  The trail of one account's chat phase: \<open>Attempt agent msg out\<close> is one call of
  \<^verbatim>\<open>_send_one_chat\<close> with its outcome, \<open>ExtraRound\<close> the panel printed when the
  balancing pass starts, \<open>LimitTripped\<close> the assignment
  \<^verbatim>\<open>hit_global_limit = True\<close>.
\<close>

datatype chat_event = Attempt string string chat_outcome | ExtraRound | LimitTripped

fun is_attempt :: "chat_event \<Rightarrow> bool" where
  "is_attempt (Attempt a m out) = True"
| "is_attempt _ = False"

text \<open>
  The environment of the chat phase, indexed by the number \<open>k\<close> of sends made before:
  \<open>send k\<close> is the outcome of the next send, \<open>rnd k\<close> the draw \<^verbatim>\<open>random.choice\<close>
  makes for its message, \<open>fetch_txs k\<close> what the block fetch of
  \<^verbatim>\<open>get_random_tx_hash\<close> gives if it is tried then: the truthy transaction hashes of
  the latest block, or the exception raised.
\<close>

record chat_env =
  send :: "nat \<Rightarrow> chat_outcome"
  rnd :: "nat \<Rightarrow> nat"
  fetch_txs :: "nat \<Rightarrow> error + string list"

text \<open>
  The counters of \<^verbatim>\<open>process_account\<close>, the global \<^verbatim>\<open>_TX_CACHE\<close> and the trail.
\<close>

record chat =
  success :: nat
  failed :: nat
  total_success_today :: nat
  consecutive_429 :: nat
  hit_global_limit :: bool
  tx_cache :: "string list"
  events :: "chat_event list"

definition sent :: "chat \<Rightarrow> nat" where
  "sent c = length (filter is_attempt (events c))"

text \<open>\<^verbatim>\<open>random.choice\<close> on a non-empty list, with the draw \<open>r\<close>.\<close>

definition choice :: "nat \<Rightarrow> 'a list \<Rightarrow> 'a" where
  "choice r xs = xs ! (r mod length xs)"

definition zero_hash :: string where
  "zero_hash = ''0x'' @ replicate 64 (CHR ''0'')"

text \<open>
  \<^verbatim>\<open>get_random_tx_hash\<close> with the cache passed in and out: the hash returned and the
  new \<^verbatim>\<open>_TX_CACHE\<close>.
\<close>

definition get_random_tx_hash :: "nat \<Rightarrow> error + string list \<Rightarrow> string list \<Rightarrow> string \<times> string list" where
  "get_random_tx_hash r fetched cache =
     (if cache \<noteq> [] then (choice r cache, cache)
      else
        let cache' = (case fetched of Inr hashes \<Rightarrow> hashes | Inl _ \<Rightarrow> cache)
        in if cache' = [] then (zero_hash, cache') else (choice r cache', cache'))"

definition pool_of :: "(string \<rightharpoonup> string list) \<Rightarrow> string \<Rightarrow> string list" where
  "pool_of topics agent_name = (case topics agent_name of None \<Rightarrow> [] | Some pool \<Rightarrow> pool)"

definition fallback_prefix :: string where
  "fallback_prefix = ''What do you think of this transaction? ''"

text \<open>
  The message of the next send to an agent, with the cache after it; \<open>None\<close> when the
  agent has no topics and no fallback.
\<close>

definition next_message :: "chat_env \<Rightarrow> (string \<rightharpoonup> string list) \<Rightarrow> string \<Rightarrow> chat \<Rightarrow> (string \<times> string list) option" where
  "next_message env topics agent_name c =
     (let pool = pool_of topics agent_name; k = sent c in
      if agent_name = ''Sherlock'' \<and> pool = [] then
        (case get_random_tx_hash (rnd env k) (fetch_txs env k) (tx_cache c) of
           (h, cache') \<Rightarrow> Some (fallback_prefix @ h, cache'))
      else if pool = [] then None
      else Some (choice (rnd env k) pool, tx_cache c))"

text \<open>
  One send and the bookkeeping after it. The flag returned is \<open>True\<close> when the loop
  is left by \<^verbatim>\<open>break\<close>.
\<close>

definition record_send :: "chat_env \<Rightarrow> string \<Rightarrow> string \<Rightarrow> chat \<Rightarrow> bool \<times> chat" where
  "record_send env agent_name msg c =
     (let out = send env (sent c);
          c0 = c\<lparr>events := events c @ [Attempt agent_name msg out]\<rparr>
      in case send_one_chat out of
        (ok, rate_limited) \<Rightarrow>
          if ok then
            (False, c0\<lparr>success := success c + 1,
                       total_success_today := total_success_today c + 1,
                       consecutive_429 := 0\<rparr>)
          else if rate_limited then
            (if consecutive_429 c + 1 \<ge> 5 then
               (True, c0\<lparr>failed := failed c + 1,
                         consecutive_429 := consecutive_429 c + 1,
                         hit_global_limit := True,
                         events := events c0 @ [LimitTripped]\<rparr>)
             else
               (False, c0\<lparr>failed := failed c + 1,
                          consecutive_429 := consecutive_429 c + 1\<rparr>))
          else (False, c0\<lparr>failed := failed c + 1\<rparr>))"

text \<open>The body of \<^verbatim>\<open>for i in range(attempts)\<close>.\<close>

definition chat_slot :: "chat_env \<Rightarrow> (string \<rightharpoonup> string list) \<Rightarrow> string \<Rightarrow> chat \<Rightarrow> bool \<times> chat" where
  "chat_slot env topics agent_name c =
     (if total_success_today c \<ge> GLOBAL_DAILY_CHAT_CAP then (True, c)
      else
        case next_message env topics agent_name c of
          None \<Rightarrow> (True, c)
        | Some (msg, cache') \<Rightarrow> record_send env agent_name msg (c\<lparr>tx_cache := cache'\<rparr>))"

fun agent_loop :: "chat_env \<Rightarrow> (string \<rightharpoonup> string list) \<Rightarrow> string \<Rightarrow> nat \<Rightarrow> chat \<Rightarrow> chat" where
  "agent_loop env topics agent_name 0 c = c"
| "agent_loop env topics agent_name (Suc n) c =
     (case chat_slot env topics agent_name c of
        (True, c') \<Rightarrow> c'
      | (False, c') \<Rightarrow> agent_loop env topics agent_name n c')"

text \<open>
  The first loop over the agents. \<^verbatim>\<open>range(attempts)\<close> is empty for
  \<^verbatim>\<open>attempts\<close> \<open>\<le> 0\<close>, hence \<open>nat\<close>.
\<close>

fun first_pass :: "chat_env \<Rightarrow> int \<Rightarrow> (string \<rightharpoonup> string list) \<Rightarrow> string list \<Rightarrow> chat \<Rightarrow> chat" where
  "first_pass env chat_per_agent topics [] c = c"
| "first_pass env chat_per_agent topics (agent_name # rest) c =
     (if total_success_today c \<ge> GLOBAL_DAILY_CHAT_CAP then c
      else
        let attempts = min chat_per_agent (int GLOBAL_DAILY_CHAT_CAP - int (total_success_today c));
            c' = agent_loop env topics agent_name (nat attempts) c
        in if hit_global_limit c' then c' else first_pass env chat_per_agent topics rest c')"

text \<open>The loop of the extra round.\<close>

fun extra_pass :: "chat_env \<Rightarrow> (string \<rightharpoonup> string list) \<Rightarrow> string list \<Rightarrow> chat \<Rightarrow> chat" where
  "extra_pass env topics [] c = c"
| "extra_pass env topics (agent_name # rest) c =
     (if total_success_today c \<ge> GLOBAL_DAILY_CHAT_CAP then c
      else
        case next_message env topics agent_name c of
          None \<Rightarrow> extra_pass env topics rest c
        | Some (msg, cache') \<Rightarrow>
            (case record_send env agent_name msg (c\<lparr>tx_cache := cache'\<rparr>) of
               (True, c') \<Rightarrow> c'
             | (False, c') \<Rightarrow> extra_pass env topics rest c'))"

definition chat_start :: "string list \<Rightarrow> chat" where
  "chat_start cache =
     \<lparr>success = 0, failed = 0, total_success_today = 0, consecutive_429 = 0,
      hit_global_limit = False, tx_cache = cache, events = []\<rparr>"

definition extra_round_due :: "int \<Rightarrow> chat \<Rightarrow> bool" where
  "extra_round_due chat_per_agent c \<longleftrightarrow>
     chat_per_agent = 1 \<and> total_success_today c < GLOBAL_DAILY_CHAT_CAP \<and> \<not> hit_global_limit c"

text \<open>The chat part of \<^verbatim>\<open>process_account\<close>, from the counters' initialisation on.\<close>

definition chat_rounds :: "chat_env \<Rightarrow> int \<Rightarrow> (string \<rightharpoonup> string list) \<Rightarrow> string list \<Rightarrow> chat" where
  "chat_rounds env chat_per_agent topics cache =
     (let c1 = first_pass env chat_per_agent topics AGENT_ORDER (chat_start cache) in
      if extra_round_due chat_per_agent c1
      then extra_pass env topics AGENT_ORDER (c1\<lparr>events := events c1 @ [ExtraRound]\<rparr>)
      else c1)"

section \<open>The account pipeline\<close>

text \<open>
  The environment of one \<^verbatim>\<open>process_account\<close>: the outcomes of
  \<^verbatim>\<open>rpc_eth_call_smart_account\<close> and of \<^verbatim>\<open>signin_and_login\<close>, the chat environment,
  the outcome of the quiz block (\<open>Inr ok\<close> with the flag \<^verbatim>\<open>submit_quiz\<close> returned) and
  the staking environment.
\<close>

record account_env =
  smart_account :: "error + string"
  login :: "error + string"
  chats :: chat_env
  quiz :: "error + bool"
  staking :: staking_env

text \<open>
  The returned triple, the chat trail, the cache, and the result of the call of
  \<^verbatim>\<open>staking_cycle\<close> (\<open>None\<close> when it was not called).
\<close>

record account_result =
  ok_count :: nat
  fail_count :: nat
  limit_hit :: bool
  chat_events :: "chat_event list"
  cache_after :: "string list"
  staking_run :: "(error + cycle_result) option"

definition early_exit :: "bool \<Rightarrow> string list \<Rightarrow> account_result" where
  "early_exit throttled cache =
     \<lparr>ok_count = 0, fail_count = 1, limit_hit = throttled, chat_events = [],
      cache_after = cache, staking_run = None\<rparr>"

text \<open>
  \<^verbatim>\<open>process_account\<close>; \<open>st\<close> is what \<^verbatim>\<open>state_load\<close> gives when \<^verbatim>\<open>staking_cycle\<close>
  starts. The final statistics block only prints and is left out.
\<close>

definition process_account :: "account_env \<Rightarrow> int \<Rightarrow> (string \<rightharpoonup> string list) \<Rightarrow> state \<Rightarrow> string list \<Rightarrow> string \<Rightarrow> account_result" where
  "process_account env chat_per_agent topics st cache address =
     (case smart_account env of
        Inl TooManyRequestsError \<Rightarrow> early_exit True cache
      | Inl _ \<Rightarrow> early_exit False cache
      | Inr aa_address \<Rightarrow>
          (case login env of
             Inl TooManyRequestsError \<Rightarrow> early_exit True cache
           | Inl _ \<Rightarrow> early_exit False cache
           | Inr access_token \<Rightarrow>
               (let c = chat_rounds (chats env) chat_per_agent topics cache;
                    quiz_ok = (case quiz env of Inr ok \<Rightarrow> ok | Inl _ \<Rightarrow> False)
                in \<lparr>ok_count = (if quiz_ok then success c + 1 else success c),
                    fail_count = (if quiz_ok then failed c else failed c + 1),
                    limit_hit = hit_global_limit c,
                    chat_events = events c,
                    cache_after = tx_cache c,
                    staking_run = Some (staking_cycle (staking env) st address)\<rparr>)))"

section \<open>Notions the properties are stated with\<close>

text \<open>The row of a subnet for an account in a state dictionary, if there is one.\<close>

definition position :: "state \<Rightarrow> string \<Rightarrow> string \<Rightarrow> row option" where
  "position st a s =
     (case st of
        None \<Rightarrow> None
      | Some accounts \<Rightarrow> (case accounts a of None \<Rightarrow> None | Some sub \<Rightarrow> sub s))"

text \<open>A state file with one account that has staked on Bitte only.\<close>

definition bitte_row :: row where
  "bitte_row =
     \<lparr>name = ''Bitte'', staked = True, last_stake_at = Some (Iso 5), last_claim_at = None,
      last_unstake_at = None\<rparr>"

definition st_bitte :: state where
  "st_bitte = Some [''0xA1'' \<mapsto> [''0xca312b44a57cc9fd60f37e6c9a343a1ad92a3b6c'' \<mapsto> bitte_row]]"

text \<open>
  A statement about the value a loop body or a phase ends with: \<open>N\<close> of the state it
  goes on with, \<open>R\<close> of the state it returns early with, \<open>E\<close> of the exception it
  raises.
\<close>

definition flow_sat :: "(cyc \<Rightarrow> bool) \<Rightarrow> (cyc \<Rightarrow> bool) \<Rightarrow> (error \<Rightarrow> bool) \<Rightarrow> flow \<Rightarrow> bool" where
  "flow_sat N R E f = (case f of Next c \<Rightarrow> N c | Return c \<Rightarrow> R c | Raise e \<Rightarrow> E e)"

text \<open>The account's dictionary has a row for each of the three subnets.\<close>

definition has_rows :: "subnets \<Rightarrow> bool" where
  "has_rows sub \<longleftrightarrow> (\<forall>t \<in> set targets. sub (snd t) \<noteq> None)"

text \<open>A call of a phase that the remote service answered with a throttle.\<close>

definition throttled :: "staking_env \<Rightarrow> call \<Rightarrow> bool" where
  "throttled env x =
     (case x of GetBalances \<Rightarrow> False | Call p a \<Rightarrow> remote env p a = Inl TooManyRequestsError)"

text \<open>The invariant of a position: a staked row has a stake timestamp.\<close>

definition row_ok :: "row \<Rightarrow> bool" where
  "row_ok r \<longleftrightarrow> (staked r \<longrightarrow> last_stake_at r \<noteq> None)"

definition subnets_ok :: "subnets \<Rightarrow> bool" where
  "subnets_ok sub \<longleftrightarrow> (\<forall>s r. sub s = Some r \<longrightarrow> row_ok r)"

definition state_ok :: "state \<Rightarrow> bool" where
  "state_ok st \<longleftrightarrow> (\<forall>a s r. position st a s = Some r \<longrightarrow> row_ok r)"

text \<open>
  No call issued so far was throttled; and: the last call issued was throttled and
  none before it.
\<close>

definition quiet :: "staking_env \<Rightarrow> cyc \<Rightarrow> bool" where
  "quiet env c \<longleftrightarrow> (\<forall>x \<in> set (calls c). \<not> throttled env x)"

definition stopped :: "staking_env \<Rightarrow> cyc \<Rightarrow> bool" where
  "stopped env c \<longleftrightarrow>
     (\<exists>pre x. calls c = pre @ [x] \<and> throttled env x \<and> (\<forall>y \<in> set pre. \<not> throttled env y))"

text \<open>
  The subnets a phase calls when it visits the subnets \<open>xs\<close> in order and each of them
  is due: all of them up to the first whose call is throttled, that one included.
\<close>

definition is_staked :: "subnets \<Rightarrow> string \<Rightarrow> bool" where
  "is_staked sub a = (case sub a of None \<Rightarrow> False | Some r \<Rightarrow> staked r)"

fun until_throttled :: "staking_env \<Rightarrow> phase \<Rightarrow> string list \<Rightarrow> string list" where
  "until_throttled env p [] = []"
| "until_throttled env p (a # rest) =
     (if remote env p a = Inl TooManyRequestsError then [a]
      else a # until_throttled env p rest)"

text \<open>What a successful claim writes to a row, and to the rows of the subnets called.\<close>

definition claimed_row :: "staking_env \<Rightarrow> string \<Rightarrow> row \<Rightarrow> row" where
  "claimed_row env s r = r\<lparr>last_claim_at := Some (Iso (now env Claim s))\<rparr>"

definition claim_effect :: "staking_env \<Rightarrow> string list \<Rightarrow> subnets \<Rightarrow> subnets" where
  "claim_effect env called sub =
     (\<lambda>s. if s \<in> set called \<and> remote env Claim s = Inr ()
          then map_option (claimed_row env s) (sub s) else sub s)"

text \<open>Example environments and states of the staking cycle.\<close>

definition kite_addr :: string where
  "kite_addr = ''0xb132001567650917d6bd695d1fab55db7986e9a5''"

definition bitte_addr :: string where
  "bitte_addr = ''0xca312b44a57cc9fd60f37e6c9a343a1ad92a3b6c''"


definition env_all_ok :: staking_env where
  "env_all_ok =
     \<lparr>balance_first = Inr (3, 0), balance_again = Inr (1, 0),
      remote = (\<lambda>p a. Inr ()),
      now = (\<lambda>p a. 100), elapsed = (\<lambda>a t. 0), minus_one = (\<lambda>b. b - 1)\<rparr>"


definition bitmind_addr :: string where
  "bitmind_addr = ''0xc368ae279275f80125284d16d292b650ecbbff8d''"

definition cyc_rows :: cyc where
  "cyc_rows =
     \<lparr>acct = [kite_addr \<mapsto> default_row ''Kite AI Agents'', bitte_addr \<mapsto> bitte_row,
              bitmind_addr \<mapsto> default_row ''Bitmind''],
      kite_bal = 0, staked_count = 0, claimed_count = 0, unstaked_count = 0,
      calls = [GetBalances]\<rparr>"

text \<open>The outcomes of the sends of a trail, and the agents they went to, in order.\<close>

fun outcomes :: "chat_event list \<Rightarrow> chat_outcome list" where
  "outcomes [] = []"
| "outcomes (Attempt a m out # es) = out # outcomes es"
| "outcomes (ExtraRound # es) = outcomes es"
| "outcomes (LimitTripped # es) = outcomes es"

fun attempted :: "chat_event list \<Rightarrow> string list" where
  "attempted [] = []"
| "attempted (Attempt a m out # es) = a # attempted es"
| "attempted (ExtraRound # es) = attempted es"
| "attempted (LimitTripped # es) = attempted es"

text \<open>
  The count \<^verbatim>\<open>consecutive_429\<close> after a sequence of outcomes: a success resets it, a
  throttle adds one, another failure leaves it.
\<close>

fun streak_step :: "nat \<Rightarrow> chat_outcome \<Rightarrow> nat" where
  "streak_step k ChatOk = 0"
| "streak_step k ChatThrottled = k + 1"
| "streak_step k ChatFailed = k"

definition streak :: "chat_outcome list \<Rightarrow> nat" where
  "streak outs = foldl streak_step 0 outs"

text \<open>No send was made after the count had reached five.\<close>

definition no_overrun :: "chat_outcome list \<Rightarrow> bool" where
  "no_overrun outs \<longleftrightarrow> (\<forall>pre post. outs = pre @ post \<and> post \<noteq> [] \<longrightarrow> streak pre < 5)"

text \<open>
  An agent that gets a message: it has topics, or it is the reserved agent. The
  slots of a run are the requested sends of these agents.
\<close>

definition has_message :: "(string \<rightharpoonup> string list) \<Rightarrow> string \<Rightarrow> bool" where
  "has_message topics agent_name \<longleftrightarrow> agent_name = ''Sherlock'' \<or> pool_of topics agent_name \<noteq> []"

definition available_slots :: "(string \<rightharpoonup> string list) \<Rightarrow> int \<Rightarrow> nat" where
  "available_slots topics chat_per_agent =
     length (filter (has_message topics) AGENT_ORDER) * nat chat_per_agent"

text \<open>What the counters of the chat phase say about its trail.\<close>

definition chat_inv :: "chat \<Rightarrow> bool" where
  "chat_inv c \<longleftrightarrow>
     consecutive_429 c = streak (outcomes (events c))
   \<and> (hit_global_limit c \<longleftrightarrow> 5 \<le> consecutive_429 c)
   \<and> no_overrun (outcomes (events c))
   \<and> total_success_today c = count_list (outcomes (events c)) ChatOk
   \<and> success c = total_success_today c
   \<and> total_success_today c \<le> GLOBAL_DAILY_CHAT_CAP
   \<and> failed c + total_success_today c = length (outcomes (events c))
   \<and> count_list (events c) LimitTripped = (if hit_global_limit c then 1 else 0)
   \<and> (hit_global_limit c \<longrightarrow> events c \<noteq> [] \<and> last (events c) = LimitTripped)
   \<and> (total_success_today c = GLOBAL_DAILY_CHAT_CAP
        \<longrightarrow> events c \<noteq> [] \<and> (\<exists>a m. last (events c) = Attempt a m ChatOk))"

text \<open>Example environments of the chat phase and of the account pipeline.\<close>

definition topics_professor :: "string \<rightharpoonup> string list" where
  "topics_professor = [''Professor'' \<mapsto> [''What is Kite AI?'']]"

definition chat_all_throttled :: chat_env where
  "chat_all_throttled =
     \<lparr>send = (\<lambda>k. ChatThrottled), rnd = (\<lambda>k. 0), fetch_txs = (\<lambda>k. Inr [])\<rparr>"

definition env_chat_throttled :: account_env where
  "env_chat_throttled =
     \<lparr>smart_account = Inr ''0xAA'', login = Inr ''token'', chats = chat_all_throttled,
      quiz = Inr True, staking = env_all_ok\<rparr>"

text \<open>
  What a call that returned has written to the row of its subnet, and the rows of an
  account after the calls \<open>xs\<close> were issued in order to the rows \<open>sub\<close>: a call that
  raised, and a fetch of the balances, write nothing.
\<close>

definition written :: "staking_env \<Rightarrow> phase \<Rightarrow> string \<Rightarrow> row \<Rightarrow> row" where
  "written env p a r =
     (case p of
        Stake \<Rightarrow> r\<lparr>staked := True, last_stake_at := Some (Iso (now env Stake a))\<rparr>
      | Restake \<Rightarrow> r\<lparr>staked := True, last_stake_at := Some (Iso (now env Restake a))\<rparr>
      | Claim \<Rightarrow> r\<lparr>last_claim_at := Some (Iso (now env Claim a))\<rparr>
      | Unstake \<Rightarrow> r\<lparr>staked := False, last_unstake_at := Some (Iso (now env Unstake a))\<rparr>)"

definition replay_call :: "staking_env \<Rightarrow> subnets \<Rightarrow> call \<Rightarrow> subnets" where
  "replay_call env sub x =
     (case x of
        GetBalances \<Rightarrow> sub
      | Call p a \<Rightarrow>
          (case (remote env p a, sub a) of
             (Inr _, Some r) \<Rightarrow> sub(a \<mapsto> written env p a r)
           | _ \<Rightarrow> sub))"

definition replay :: "staking_env \<Rightarrow> subnets \<Rightarrow> call list \<Rightarrow> subnets" where
  "replay env sub xs = foldl (replay_call env) sub xs"



text \<open>
  The messages an agent can be sent: one of its topics, or for the reserved agent
  without topics the fallback question followed by a transaction hash.
\<close>

definition message_for :: "(string \<rightharpoonup> string list) \<Rightarrow> string \<Rightarrow> string \<Rightarrow> bool" where
  "message_for topics agent_name msg \<longleftrightarrow>
     (if pool_of topics agent_name = []
      then agent_name = ''Sherlock'' \<and> prefix fallback_prefix msg
      else msg \<in> set (pool_of topics agent_name))"

definition chat_all_ok :: chat_env where
  "chat_all_ok =
     \<lparr>send = (\<lambda>k. ChatOk), rnd = (\<lambda>k. 0), fetch_txs = (\<lambda>k. Inr [''0x5e1f'', ''0x77aa''])\<rparr>"



section \<open>Properties of the classifier\<close>




section \<open>Properties of the state dictionary\<close>

lemma targets_eq:
  "targets =
     [(''Kite AI Agents'', ''0xb132001567650917d6bd695d1fab55db7986e9a5''),
      (''Bitte'', ''0xca312b44a57cc9fd60f37e6c9a343a1ad92a3b6c''),
      (''Bitmind'', ''0xc368ae279275f80125284d16d292b650ecbbff8d'')]"
  by (simp add: targets_def SUBNETS_def SUBNET_ORDER_def List.map_filter_def)

lemma ensure_subnet_keeps: "sub a = Some r \<Longrightarrow> ensure_subnet sub t a = Some r"
  by (cases t) (auto simp: ensure_subnet_def)

lemma ensure_keeps: "sub a = Some r \<Longrightarrow> foldl ensure_subnet sub ts a = Some r"
  by (induction ts arbitrary: sub) (simp_all add: ensure_subnet_keeps)

lemma ensure_adds: "(n, a) \<in> set ts \<Longrightarrow> foldl ensure_subnet sub ts a \<noteq> None"
proof (induction ts arbitrary: sub)
  case Nil
  then show ?case by simp
next
  case (Cons t ts)
  show ?case
  proof (cases "t = (n, a)")
    case True
    have "ensure_subnet sub (n, a) a \<noteq> None"
      by (simp add: ensure_subnet_def)
    then obtain r where "ensure_subnet sub (n, a) a = Some r" by blast
    then show ?thesis using True ensure_keeps by fastforce
  next
    case False
    with Cons show ?thesis by simp
  qed
qed

lemma ensure_origin:
  "foldl ensure_subnet sub ts a = Some r \<Longrightarrow>
     sub a = Some r \<or> (sub a = None \<and> (\<exists>n. (n, a) \<in> set ts \<and> r = default_row n))"
proof (induction ts arbitrary: sub)
  case Nil
  then show ?case by simp
next
  case (Cons t ts)
  obtain n b where t: "t = (n, b)" by (cases t)
  from Cons.prems have "foldl ensure_subnet (ensure_subnet sub t) ts a = Some r" by simp
  from Cons.IH[OF this] show ?case
    by (auto simp: t ensure_subnet_def split: if_splits)
qed

lemma ensure_fixed:
  "\<forall>t \<in> set ts. sub (snd t) \<noteq> None \<Longrightarrow> foldl ensure_subnet sub ts = sub"
  by (induction ts arbitrary: sub) (auto simp: ensure_subnet_def)

lemma ensure_twice:
  "foldl ensure_subnet (foldl ensure_subnet sub ts) ts = foldl ensure_subnet sub ts"
proof (rule ensure_fixed)
  show "\<forall>t\<in>set ts. foldl ensure_subnet sub ts (snd t) \<noteq> None"
  proof
    fix t assume "t \<in> set ts"
    then have "(fst t, snd t) \<in> set ts" by simp
    then show "foldl ensure_subnet sub ts (snd t) \<noteq> None" by (rule ensure_adds)
  qed
qed

lemma ensure_position_kept:
  "position st a s = Some r \<Longrightarrow> position (ensure_account_state st address) a s = Some r"
  by (auto simp: position_def ensure_account_state_def Let_def ensure_keeps
           split: option.splits)

lemma ensure_position_origin:
  "position (ensure_account_state st address) a s = Some r \<Longrightarrow>
     position st a s = Some r
       \<or> (position st a s = None \<and> a = address
           \<and> (\<exists>n. (n, s) \<in> set targets \<and> r = default_row n))"
  by (auto simp: position_def ensure_account_state_def Let_def
           split: option.splits if_splits dest!: ensure_origin)

text \<open>
  Claim C10. \<^verbatim>\<open>ensure_account_state\<close> is idempotent and non-destructive: applied
  twice it gives the state it gives applied once; every row that is in the state
  stays as it is, flag and timestamps alike; and a row that is in the result and
  was not in the state belongs to the account at hand and to one of the three
  subnets, and is that subnet's default row (not staked, no timestamp).
\<close>

theorem ensure_account_state_idempotent:
  "ensure_account_state (ensure_account_state st address) address
     = ensure_account_state st address
   \<and> (position st a s = Some r
        \<longrightarrow> position (ensure_account_state st address) a s = Some r)
   \<and> (position (ensure_account_state st address) a s = Some r
        \<longrightarrow> position st a s = Some r
            \<or> (position st a s = None \<and> a = address
                \<and> (\<exists>n. (n, s) \<in> set targets \<and> r = default_row n)))"
proof (intro conjI impI)
  show "ensure_account_state (ensure_account_state st address) address
     = ensure_account_state st address"
    by (simp add: ensure_account_state_def Let_def ensure_twice)
next
  assume "position st a s = Some r"
  then show "position (ensure_account_state st address) a s = Some r"
    by (rule ensure_position_kept)
next
  assume "position (ensure_account_state st address) a s = Some r"
  then show "position st a s = Some r
            \<or> (position st a s = None \<and> a = address
                \<and> (\<exists>n. (n, s) \<in> set targets \<and> r = default_row n))"
    by (rule ensure_position_origin)
qed

theorem ensure_account_state_idempotent_witness:
  "position (ensure_account_state st_bitte ''0xA1'') ''0xA1''
       ''0xca312b44a57cc9fd60f37e6c9a343a1ad92a3b6c'' = Some bitte_row
   \<and> position (ensure_account_state st_bitte ''0xA1'') ''0xA1''
       ''0xb132001567650917d6bd695d1fab55db7986e9a5''
     = Some (default_row ''Kite AI Agents'')
   \<and> position st_bitte ''0xA1'' ''0xb132001567650917d6bd695d1fab55db7986e9a5'' = None"
  using ensure_account_state_idempotent
    [of st_bitte "''0xA1''" "''0xA1''" "''0xca312b44a57cc9fd60f37e6c9a343a1ad92a3b6c''"
      bitte_row]
    ensure_account_state_idempotent
    [of st_bitte "''0xA1''" "''0xA1''" "''0xb132001567650917d6bd695d1fab55db7986e9a5''"
      "default_row ''Kite AI Agents''"]
  by (simp add: position_def st_bitte_def ensure_account_state_def targets_eq
        ensure_subnet_def)

section \<open>Properties of the staking cycle\<close>

lemma flow_sat_simps [simp]:
  "flow_sat N R E (Next c) = N c"
  "flow_sat N R E (Return c) = R c"
  "flow_sat N R E (Raise e) = E e"
  by (simp_all add: flow_sat_def)

lemma for_targets_sat:
  assumes "\<And>t c. t \<in> set ts \<Longrightarrow> N c \<Longrightarrow> flow_sat N R E (body t c)" and "N c"
  shows "flow_sat N R E (for_targets body ts c)"
  using assms
proof (induction ts arbitrary: c)
  case Nil
  then show ?case by simp
next
  case (Cons t ts)
  have step: "flow_sat N R E (body t c)" using Cons.prems by simp
  show ?case
  proof (cases "body t c")
    case (Next c')
    with step have "N c'" by simp
    then have "flow_sat N R E (for_targets body ts c')"
      using Cons.IH Cons.prems(1) by simp
    with Next show ?thesis by simp
  next
    case (Return c')
    with step show ?thesis by simp
  next
    case (Raise e)
    with step show ?thesis by simp
  qed
qed

lemma and_then_sat:
  assumes "flow_sat N R E f" and "\<And>c. N c \<Longrightarrow> flow_sat N' R E (k c)"
  shows "flow_sat N' R E (and_then f k)"
  using assms by (cases f) (simp_all add: and_then_def)

lemma flow_sat_mono:
  assumes "flow_sat N R E f" "\<And>c. N c \<Longrightarrow> N' c" "\<And>c. R c \<Longrightarrow> R' c" "\<And>e. E e \<Longrightarrow> E' e"
  shows "flow_sat N' R' E' f"
  using assms by (cases f) simp_all

lemma stake_step_cases:
  assumes "acct c (snd t) = Some r"
  shows "stake_step env p t c = Next c
    \<or> (\<not> staked r \<and> remote env p (snd t) = Inl TooManyRequestsError
        \<and> stake_step env p t c = Return (issue (Call p (snd t)) c))
    \<or> (\<not> staked r \<and> (\<exists>e. remote env p (snd t) = Inl e \<and> e \<noteq> TooManyRequestsError)
        \<and> stake_step env p t c = Next (issue (Call p (snd t)) c))
    \<or> (\<not> staked r \<and> remote env p (snd t) = Inr ()
        \<and> stake_step env p t c = Next ((issue (Call p (snd t)) c)
             \<lparr>acct := (acct c)(snd t \<mapsto>
                 r\<lparr>staked := True, last_stake_at := Some (Iso (now env p (snd t)))\<rparr>),
               kite_bal := minus_one env (kite_bal c),
               staked_count := staked_count c + 1\<rparr>))"
  using assms
  by (cases t) (auto simp: stake_step_def split: sum.splits error.splits)

lemma claim_step_cases:
  assumes "acct c (snd t) = Some r"
  shows "(\<not> staked r \<and> claim_step env t c = Next c)
    \<or> (staked r \<and> remote env Claim (snd t) = Inl TooManyRequestsError
        \<and> claim_step env t c = Return (issue (Call Claim (snd t)) c))
    \<or> (staked r \<and> (\<exists>e. remote env Claim (snd t) = Inl e \<and> e \<noteq> TooManyRequestsError)
        \<and> claim_step env t c = Next (issue (Call Claim (snd t)) c))
    \<or> (staked r \<and> remote env Claim (snd t) = Inr ()
        \<and> claim_step env t c = Next ((issue (Call Claim (snd t)) c)
             \<lparr>acct := (acct c)(snd t \<mapsto>
                 r\<lparr>last_claim_at := Some (Iso (now env Claim (snd t)))\<rparr>),
               claimed_count := claimed_count c + 1\<rparr>))"
  using assms
  by (cases t) (auto simp: claim_step_def split: sum.splits error.splits)

lemma unstake_step_cases:
  assumes "acct c (snd t) = Some r"
  shows "unstake_step env t c = Next c
    \<or> (staked r \<and> remote env Unstake (snd t) = Inl TooManyRequestsError
        \<and> unstake_step env t c = Return (issue (Call Unstake (snd t)) c))
    \<or> (staked r \<and> (\<exists>e. remote env Unstake (snd t) = Inl e \<and> e \<noteq> TooManyRequestsError)
        \<and> unstake_step env t c = Next (issue (Call Unstake (snd t)) c))
    \<or> (staked r \<and> remote env Unstake (snd t) = Inr ()
        \<and> unstake_step env t c = Next ((issue (Call Unstake (snd t)) c)
             \<lparr>acct := (acct c)(snd t \<mapsto>
                 r\<lparr>staked := False,
                   last_unstake_at := Some (Iso (now env Unstake (snd t)))\<rparr>),
               unstaked_count := unstaked_count c + 1\<rparr>))"
  using assms
  by (cases t) (auto simp: unstake_step_def Let_def split: sum.splits error.splits)

lemma stake_phase_sat:
  assumes "\<And>t c. t \<in> set targets \<Longrightarrow> N c \<Longrightarrow> flow_sat N R E (stake_step env p t c)"
    and "N c"
  shows "flow_sat N R E (stake_phase env p c)"
  using assms by (simp add: stake_phase_def for_targets_sat)

lemma run_phases_sat:
  assumes stake: "\<And>p t c. t \<in> set targets \<Longrightarrow> N c \<Longrightarrow> flow_sat N R E (stake_step env p t c)"
    and claim: "\<And>t c. t \<in> set targets \<Longrightarrow> N c \<Longrightarrow> flow_sat N R E (claim_step env t c)"
    and unstake: "\<And>t c. t \<in> set targets \<Longrightarrow> N c \<Longrightarrow> flow_sat N R E (unstake_step env t c)"
    and refetch: "\<And>c b. N c \<Longrightarrow> N ((issue GetBalances c)\<lparr>kite_bal := b\<rparr>)"
    and start: "N c"
  shows "flow_sat N R E (run_phases env c)"
  unfolding run_phases_def
proof (rule and_then_sat [where N = N])
  show "flow_sat N R E (stake_phase env Stake c)"
    using stake start by (rule stake_phase_sat)
next
  fix c1 assume c1: "N c1"
  show "flow_sat N R E (and_then (claim_phase env c1)
          (\<lambda>c2. and_then (unstake_phase env c2) (restake_phase env)))"
  proof (rule and_then_sat [where N = N])
    show "flow_sat N R E (claim_phase env c1)"
      unfolding claim_phase_def using claim c1 by (rule for_targets_sat)
  next
    fix c2 assume c2: "N c2"
    show "flow_sat N R E (and_then (unstake_phase env c2) (restake_phase env))"
    proof (rule and_then_sat [where N = N])
      show "flow_sat N R E (unstake_phase env c2)"
        unfolding unstake_phase_def using unstake c2 by (rule for_targets_sat)
    next
      fix c3 assume "N c3"
      then have "N ((issue GetBalances c3)\<lparr>kite_bal := kite_or_zero (balance_again env)\<rparr>)"
        by (rule refetch)
      with stake show "flow_sat N R E (restake_phase env c3)"
        unfolding restake_phase_def by (rule stake_phase_sat)
    qed
  qed
qed

lemma has_rows_row: "has_rows sub \<Longrightarrow> t \<in> set targets \<Longrightarrow> \<exists>r. sub (snd t) = Some r"
  by (auto simp: has_rows_def)

lemma has_rows_upd: "has_rows sub \<Longrightarrow> has_rows (sub(a \<mapsto> r))"
  by (simp add: has_rows_def)

lemma run_phases_no_raise:
  assumes "has_rows (acct c)"
  shows "flow_sat (\<lambda>c. has_rows (acct c)) (\<lambda>c. True) (\<lambda>e. False) (run_phases env c)"
proof (rule run_phases_sat)
  fix p t and c :: cyc assume "t \<in> set targets" "has_rows (acct c)"
  then obtain r where r: "acct c (snd t) = Some r" "has_rows (acct c)"
    using has_rows_row by blast
  from stake_step_cases[OF r(1), of env p] r(2)
  show "flow_sat (\<lambda>c. has_rows (acct c)) (\<lambda>c. True) (\<lambda>e. False) (stake_step env p t c)"
    by (auto simp: issue_def has_rows_upd)
next
  fix t and c :: cyc assume "t \<in> set targets" "has_rows (acct c)"
  then obtain r where r: "acct c (snd t) = Some r" "has_rows (acct c)"
    using has_rows_row by blast
  from claim_step_cases[OF r(1), of env] r(2)
  show "flow_sat (\<lambda>c. has_rows (acct c)) (\<lambda>c. True) (\<lambda>e. False) (claim_step env t c)"
    by (auto simp: issue_def has_rows_upd)
next
  fix t and c :: cyc assume "t \<in> set targets" "has_rows (acct c)"
  then obtain r where r: "acct c (snd t) = Some r" "has_rows (acct c)"
    using has_rows_row by blast
  from unstake_step_cases[OF r(1), of env] r(2)
  show "flow_sat (\<lambda>c. has_rows (acct c)) (\<lambda>c. True) (\<lambda>e. False) (unstake_step env t c)"
    by (auto simp: issue_def has_rows_upd)
next
  fix c :: cyc and b assume "has_rows (acct c)"
  then show "has_rows (acct ((issue GetBalances c)\<lparr>kite_bal := b\<rparr>))"
    by (simp add: issue_def)
next
  show "has_rows (acct c)" by fact
qed

lemma calls_issue [simp]: "calls (issue x c) = calls c @ [x]"
  by (simp add: issue_def)

lemma acct_issue [simp]: "acct (issue x c) = acct c"
  by (simp add: issue_def)

lemma quiet_issue:
  "quiet env c \<Longrightarrow> \<not> throttled env x \<Longrightarrow> quiet env (issue x c)"
  by (simp add: quiet_def issue_def)

lemma stopped_issue:
  "quiet env c \<Longrightarrow> throttled env x \<Longrightarrow> stopped env (issue x c)"
  by (auto simp: quiet_def stopped_def issue_def)

lemma throttled_Call [simp]:
  "throttled env (Call p a) \<longleftrightarrow> remote env p a = Inl TooManyRequestsError"
  "\<not> throttled env GetBalances"
  by (simp_all add: throttled_def)


lemma ensure_has_rows:
  "\<exists>sub. subnets_of (ensure_account_state st address) address = Inr sub \<and> has_rows sub
     \<and> ensure_account_state st address = with_subnets (ensure_account_state st address) address sub"
proof -
  have "has_rows (foldl ensure_subnet sub targets)" for sub
    unfolding has_rows_def
  proof
    fix t assume "t \<in> set targets"
    then have "(fst t, snd t) \<in> set targets" by simp
    then show "foldl ensure_subnet sub targets (snd t) \<noteq> None" by (rule ensure_adds)
  qed
  then show ?thesis
    by (simp add: subnets_of_def ensure_account_state_def Let_def with_subnets_def)
qed


lemma staking_cycle_cases:
  obtains (throttled_start) sub where
      "subnets_of (ensure_account_state st address) address = Inr sub" "has_rows sub"
      "balance_first env = Inl TooManyRequestsError"
      "staking_cycle env st address =
         Inr \<lparr>counts = (0, 0, 0), memory = ensure_account_state st address, saved = None,
              issued = [GetBalances]\<rparr>"
  | (ran) sub c where
      "subnets_of (ensure_account_state st address) address = Inr sub" "has_rows sub"
      "balance_first env \<noteq> Inl TooManyRequestsError"
      "run_phases env \<lparr>acct = sub, kite_bal = kite_or_zero (balance_first env),
          staked_count = 0, claimed_count = 0, unstaked_count = 0, calls = [GetBalances]\<rparr>
        = Next c \<or>
       run_phases env \<lparr>acct = sub, kite_bal = kite_or_zero (balance_first env),
          staked_count = 0, claimed_count = 0, unstaked_count = 0, calls = [GetBalances]\<rparr>
        = Return c"
      "staking_cycle env st address = Inr (saving (ensure_account_state st address) address c)"
proof -
  obtain sub where sub: "subnets_of (ensure_account_state st address) address = Inr sub"
      "has_rows sub"
    using ensure_has_rows by blast
  let ?c0 = "\<lparr>acct = sub, kite_bal = kite_or_zero (balance_first env),
          staked_count = 0, claimed_count = 0, unstaked_count = 0, calls = [GetBalances]\<rparr>"
  show thesis
  proof (cases "balance_first env = Inl TooManyRequestsError")
    case True
    then have eq: "staking_cycle env st address =
         Inr \<lparr>counts = (0, 0, 0), memory = ensure_account_state st address, saved = None,
              issued = [GetBalances]\<rparr>"
      using sub by (simp add: staking_cycle_def Let_def)
    show thesis by (rule throttled_start [OF sub True eq])
  next
    case False
    have nr: "flow_sat (\<lambda>c. has_rows (acct c)) (\<lambda>c. True) (\<lambda>e. False) (run_phases env ?c0)"
      by (rule run_phases_no_raise) (simp add: sub)
    then obtain c where c: "run_phases env ?c0 = Next c \<or> run_phases env ?c0 = Return c"
      by (cases "run_phases env ?c0") auto
    have eq: "staking_cycle env st address
            = Inr (saving (ensure_account_state st address) address c)"
      using False sub c
      by (auto simp: staking_cycle_def Let_def split: sum.splits error.splits)
    show thesis by (rule ran [OF sub False c eq])
  qed
qed

lemma row_ok_default: "row_ok (default_row n)"
  by (simp add: row_ok_def default_row_def)

lemma subnets_ok_upd: "subnets_ok sub \<Longrightarrow> row_ok r \<Longrightarrow> subnets_ok (sub(a \<mapsto> r))"
  by (simp add: subnets_ok_def)

lemma stake_step_ok:
  "subnets_ok (acct c) \<Longrightarrow>
     flow_sat (\<lambda>c'. subnets_ok (acct c') \<and> dom (acct c) \<subseteq> dom (acct c'))
       (\<lambda>c'. subnets_ok (acct c') \<and> dom (acct c) \<subseteq> dom (acct c')) (\<lambda>e. True) (stake_step env p t c)"
  by (cases t) (auto simp: stake_step_def subnets_ok_def row_ok_def issue_def
        split: option.splits sum.splits error.splits)

lemma claim_step_ok:
  "subnets_ok (acct c) \<Longrightarrow>
     flow_sat (\<lambda>c'. subnets_ok (acct c') \<and> dom (acct c) \<subseteq> dom (acct c'))
       (\<lambda>c'. subnets_ok (acct c') \<and> dom (acct c) \<subseteq> dom (acct c')) (\<lambda>e. True) (claim_step env t c)"
  by (cases t) (auto simp: claim_step_def subnets_ok_def row_ok_def issue_def
        split: option.splits sum.splits error.splits)

lemma unstake_step_ok:
  "subnets_ok (acct c) \<Longrightarrow>
     flow_sat (\<lambda>c'. subnets_ok (acct c') \<and> dom (acct c) \<subseteq> dom (acct c'))
       (\<lambda>c'. subnets_ok (acct c') \<and> dom (acct c) \<subseteq> dom (acct c')) (\<lambda>e. True) (unstake_step env t c)"
  by (cases t) (auto simp: unstake_step_def subnets_ok_def row_ok_def issue_def Let_def
        split: option.splits sum.splits error.splits)

lemma run_phases_ok:
  assumes "subnets_ok (acct c)" "D \<subseteq> dom (acct c)"
  shows "flow_sat (\<lambda>c'. subnets_ok (acct c') \<and> D \<subseteq> dom (acct c'))
           (\<lambda>c'. subnets_ok (acct c') \<and> D \<subseteq> dom (acct c')) (\<lambda>e. True) (run_phases env c)"
proof (rule run_phases_sat)
  fix p t and c :: cyc assume a: "subnets_ok (acct c) \<and> D \<subseteq> dom (acct c)"
  then have "subnets_ok (acct c)" by simp
  note s = stake_step_ok[OF this, of env p t]
  show "flow_sat (\<lambda>c'. subnets_ok (acct c') \<and> D \<subseteq> dom (acct c'))
           (\<lambda>c'. subnets_ok (acct c') \<and> D \<subseteq> dom (acct c')) (\<lambda>e. True) (stake_step env p t c)"
    by (rule flow_sat_mono [OF s]) (use a in blast)+
next
  fix t and c :: cyc assume a: "subnets_ok (acct c) \<and> D \<subseteq> dom (acct c)"
  then have "subnets_ok (acct c)" by simp
  note s = claim_step_ok[OF this, of env t]
  show "flow_sat (\<lambda>c'. subnets_ok (acct c') \<and> D \<subseteq> dom (acct c'))
           (\<lambda>c'. subnets_ok (acct c') \<and> D \<subseteq> dom (acct c')) (\<lambda>e. True) (claim_step env t c)"
    by (rule flow_sat_mono [OF s]) (use a in blast)+
next
  fix t and c :: cyc assume a: "subnets_ok (acct c) \<and> D \<subseteq> dom (acct c)"
  then have "subnets_ok (acct c)" by simp
  note s = unstake_step_ok[OF this, of env t]
  show "flow_sat (\<lambda>c'. subnets_ok (acct c') \<and> D \<subseteq> dom (acct c'))
           (\<lambda>c'. subnets_ok (acct c') \<and> D \<subseteq> dom (acct c')) (\<lambda>e. True) (unstake_step env t c)"
    by (rule flow_sat_mono [OF s]) (use a in blast)+
next
  fix c :: cyc and b assume "subnets_ok (acct c) \<and> D \<subseteq> dom (acct c)"
  then show "subnets_ok (acct ((issue GetBalances c)\<lparr>kite_bal := b\<rparr>))
     \<and> D \<subseteq> dom (acct ((issue GetBalances c)\<lparr>kite_bal := b\<rparr>))"
    by simp
next
  show "subnets_ok (acct c) \<and> D \<subseteq> dom (acct c)" using assms by simp
qed

lemma ensure_state_ok:
  assumes "state_ok st"
  shows "state_ok (ensure_account_state st address)"
  unfolding state_ok_def
proof (intro allI impI)
  fix a s r assume "position (ensure_account_state st address) a s = Some r"
  then have "position st a s = Some r \<or> (\<exists>n. r = default_row n)"
    using ensure_position_origin [of st address a s r] by blast
  then show "row_ok r" using assms row_ok_default by (auto simp: state_ok_def)
qed

lemma position_with_subnets:
  "position (with_subnets st address sub) a s
     = (if a = address then sub s else position st a s)"
  by (auto simp: position_def with_subnets_def split: option.splits)

lemma position_subnets_of:
  "subnets_of st address = Inr sub \<Longrightarrow> position st address s = sub s"
  by (auto simp: position_def subnets_of_def split: option.splits)

text \<open>
  Claim C7. When every staked row of the loaded state has a stake timestamp, so has
  every staked row of the state after \<^verbatim>\<open>staking_cycle\<close>, in memory and on file, after
  \<^verbatim>\<open>ensure_account_state\<close> and after each step of each phase; a row that is not staked
  keeps the timestamps it has. After the cycle the account has a row for each of
  the three subnets (created with default values when it was not there), and
  every row that was in the state is still there.
\<close>

theorem staking_keeps_stake_timestamp:
  "(state_ok st \<longrightarrow>
      (\<exists>res. staking_cycle env st address = Inr res \<and> state_ok (memory res)
         \<and> (saved res = None \<or> saved res = Some (memory res))))
   \<and> (\<exists>res. staking_cycle env st address = Inr res
         \<and> (\<forall>t \<in> set targets. position (memory res) address (snd t) \<noteq> None)
         \<and> (position st a s \<noteq> None \<longrightarrow> position (memory res) a s \<noteq> None))
   \<and> (state_ok st \<longrightarrow> state_ok (ensure_account_state st address))
   \<and> (subnets_ok (acct c) \<longrightarrow>
        flow_sat (\<lambda>c'. subnets_ok (acct c')) (\<lambda>c'. subnets_ok (acct c')) (\<lambda>e. True)
          (stake_step env p t c)
      \<and> flow_sat (\<lambda>c'. subnets_ok (acct c')) (\<lambda>c'. subnets_ok (acct c')) (\<lambda>e. True)
          (claim_step env t c)
      \<and> flow_sat (\<lambda>c'. subnets_ok (acct c')) (\<lambda>c'. subnets_ok (acct c')) (\<lambda>e. True)
          (unstake_step env t c))"
proof -
  let ?st1 = "ensure_account_state st address"
  have kept: "position ?st1 a s \<noteq> None" if "position st a s \<noteq> None" for a s
    using that ensure_position_kept [of st a s _ address] by auto
  have cycle: "\<exists>res. staking_cycle env st address = Inr res
         \<and> (state_ok st \<longrightarrow> state_ok (memory res))
         \<and> (saved res = None \<or> saved res = Some (memory res))
         \<and> (\<forall>t \<in> set targets. position (memory res) address (snd t) \<noteq> None)
         \<and> (position st a s \<noteq> None \<longrightarrow> position (memory res) a s \<noteq> None)"
  proof (cases rule: staking_cycle_cases [of st address env])
    case (throttled_start sub)
    have "\<forall>t \<in> set targets. position ?st1 address (snd t) \<noteq> None"
      using throttled_start(1,2) by (simp add: position_subnets_of has_rows_def)
    then show ?thesis
      using throttled_start(4) kept ensure_state_ok by simp
  next
    case (ran sub c0)
    let ?c = "\<lparr>acct = sub, kite_bal = kite_or_zero (balance_first env),
          staked_count = 0, claimed_count = 0, unstaked_count = 0, calls = [GetBalances]\<rparr>"
    have sub_pos: "position ?st1 address s = sub s" for s
      using ran(1) by (rule position_subnets_of)
    have grow: "dom sub \<subseteq> dom (acct c0)"
    proof -
      have "flow_sat (\<lambda>c. has_rows (acct c) \<and> dom sub \<subseteq> dom (acct c))
              (\<lambda>c. has_rows (acct c) \<and> dom sub \<subseteq> dom (acct c)) (\<lambda>e. True) (run_phases env ?c)"
      proof (rule run_phases_sat)
        fix p t and c :: cyc assume a: "has_rows (acct c) \<and> dom sub \<subseteq> dom (acct c)"
          and "t \<in> set targets"
        then obtain r where r: "acct c (snd t) = Some r" using has_rows_row by blast
        from stake_step_cases[OF r, of env p] a
        show "flow_sat (\<lambda>c. has_rows (acct c) \<and> dom sub \<subseteq> dom (acct c))
              (\<lambda>c. has_rows (acct c) \<and> dom sub \<subseteq> dom (acct c)) (\<lambda>e. True)
              (stake_step env p t c)"
          by (elim disjE conjE exE) (auto simp: has_rows_upd)
      next
        fix t and c :: cyc assume a: "has_rows (acct c) \<and> dom sub \<subseteq> dom (acct c)"
          and "t \<in> set targets"
        then obtain r where r: "acct c (snd t) = Some r" using has_rows_row by blast
        from claim_step_cases[OF r, of env] a
        show "flow_sat (\<lambda>c. has_rows (acct c) \<and> dom sub \<subseteq> dom (acct c))
              (\<lambda>c. has_rows (acct c) \<and> dom sub \<subseteq> dom (acct c)) (\<lambda>e. True)
              (claim_step env t c)"
          by (elim disjE conjE exE) (auto simp: has_rows_upd)
      next
        fix t and c :: cyc assume a: "has_rows (acct c) \<and> dom sub \<subseteq> dom (acct c)"
          and "t \<in> set targets"
        then obtain r where r: "acct c (snd t) = Some r" using has_rows_row by blast
        from unstake_step_cases[OF r, of env] a
        show "flow_sat (\<lambda>c. has_rows (acct c) \<and> dom sub \<subseteq> dom (acct c))
              (\<lambda>c. has_rows (acct c) \<and> dom sub \<subseteq> dom (acct c)) (\<lambda>e. True)
              (unstake_step env t c)"
          by (elim disjE conjE exE) (auto simp: has_rows_upd)
      next
        fix c :: cyc and b assume "has_rows (acct c) \<and> dom sub \<subseteq> dom (acct c)"
        then show "has_rows (acct ((issue GetBalances c)\<lparr>kite_bal := b\<rparr>))
            \<and> dom sub \<subseteq> dom (acct ((issue GetBalances c)\<lparr>kite_bal := b\<rparr>))"
          by simp
      next
        show "has_rows (acct ?c) \<and> dom sub \<subseteq> dom (acct ?c)" using ran(2) by simp
      qed
      with ran(4) have "has_rows (acct c0) \<and> dom sub \<subseteq> dom (acct c0)"
        by (elim disjE) simp_all
      then show ?thesis by simp
    qed
    have ok: "subnets_ok (acct c0)" if "state_ok st"
    proof -
      have "state_ok ?st1" using that by (rule ensure_state_ok)
      then have "subnets_ok sub"
        unfolding subnets_ok_def state_ok_def using sub_pos by metis
      then have "flow_sat (\<lambda>c'. subnets_ok (acct c') \<and> {} \<subseteq> dom (acct c'))
           (\<lambda>c'. subnets_ok (acct c') \<and> {} \<subseteq> dom (acct c')) (\<lambda>e. True) (run_phases env ?c)"
        by (intro run_phases_ok) simp_all
      with ran(4) have "subnets_ok (acct c0) \<and> {} \<subseteq> dom (acct c0)"
        by (elim disjE) simp_all
      then show ?thesis by simp
    qed
    have mempos: "position (memory (saving ?st1 address c0)) a s
        = (if a = address then acct c0 s else position ?st1 a s)" for a s
      by (simp add: saving_def position_with_subnets)
    have 1: "state_ok (memory (saving ?st1 address c0))" if "state_ok st"
      unfolding state_ok_def
    proof (intro allI impI)
      fix a s r assume p: "position (memory (saving ?st1 address c0)) a s = Some r"
      show "row_ok r"
      proof (cases "a = address")
        case True
        with p have "acct c0 s = Some r" by (simp add: mempos)
        with ok[OF that] show ?thesis by (auto simp: subnets_ok_def)
      next
        case False
        with p have "position ?st1 a s = Some r" by (simp add: mempos)
        with ensure_state_ok[OF that, of address] show ?thesis by (auto simp: state_ok_def)
      qed
    qed
    have 2: "\<forall>t \<in> set targets. position (memory (saving ?st1 address c0)) address (snd t) \<noteq> None"
    proof
      fix t assume "t \<in> set targets"
      then have "sub (snd t) \<noteq> None" using ran(2) by (simp add: has_rows_def)
      then have "acct c0 (snd t) \<noteq> None" using grow by blast
      then show "position (memory (saving ?st1 address c0)) address (snd t) \<noteq> None"
        by (simp add: mempos)
    qed
    have 3: "position (memory (saving ?st1 address c0)) a s \<noteq> None"
      if "position st a s \<noteq> None"
    proof (cases "a = address")
      case True
      from kept[OF that] have "sub s \<noteq> None" using sub_pos True by simp
      then have "acct c0 s \<noteq> None" using grow by blast
      with True show ?thesis by (simp add: mempos)
    next
      case False
      with kept[OF that] show ?thesis by (simp add: mempos)
    qed
    have 4: "saved (saving ?st1 address c0) = Some (memory (saving ?st1 address c0))"
      by (simp add: saving_def)
    from ran(5) 1 2 3 4 show ?thesis by simp
  qed
  have steps: "flow_sat (\<lambda>c'. subnets_ok (acct c')) (\<lambda>c'. subnets_ok (acct c')) (\<lambda>e. True)
          (stake_step env p t c)
      \<and> flow_sat (\<lambda>c'. subnets_ok (acct c')) (\<lambda>c'. subnets_ok (acct c')) (\<lambda>e. True)
          (claim_step env t c)
      \<and> flow_sat (\<lambda>c'. subnets_ok (acct c')) (\<lambda>c'. subnets_ok (acct c')) (\<lambda>e. True)
          (unstake_step env t c)" if ok: "subnets_ok (acct c)"
    using stake_step_ok[OF ok, of env p t] claim_step_ok[OF ok, of env t]
      unstake_step_ok[OF ok, of env t]
    by (auto elim: flow_sat_mono)
  from cycle steps ensure_state_ok show ?thesis by blast
qed

subsection \<open>The claim phase\<close>

lemma until_throttled_subset: "set (until_throttled env p xs) \<subseteq> set xs"
  by (induction xs) auto

lemma until_throttled_all:
  "\<forall>a \<in> set xs. remote env p a \<noteq> Inl TooManyRequestsError \<Longrightarrow> until_throttled env p xs = xs"
  by (induction xs) auto

lemma is_staked_claimed:
  "acct c a = Some r \<Longrightarrow> is_staked ((acct c)(a \<mapsto> claimed_row env a r)) = is_staked (acct c)"
  by (rule ext) (simp add: is_staked_def claimed_row_def)

lemma claim_effect_Nil [simp]: "claim_effect env [] sub = sub"
  by (rule ext) (simp add: claim_effect_def)

lemma claim_effect_skip:
  "remote env Claim a \<noteq> Inr () \<Longrightarrow> claim_effect env (a # called) sub = claim_effect env called sub"
  by (rule ext) (auto simp: claim_effect_def)

lemma claim_loop:
  assumes "\<forall>t \<in> set ts. acct c (snd t) \<noteq> None" and "distinct (map snd ts)"
  shows "\<exists>c'. (for_targets (claim_step env) ts c = Next c'
                \<or> for_targets (claim_step env) ts c = Return c')
     \<and> calls c' = calls c @ map (Call Claim)
           (until_throttled env Claim (filter (is_staked (acct c)) (map snd ts)))
     \<and> acct c' = claim_effect env
           (until_throttled env Claim (filter (is_staked (acct c)) (map snd ts))) (acct c)
     \<and> kite_bal c' = kite_bal c \<and> staked_count c' = staked_count c
     \<and> unstaked_count c' = unstaked_count c"
  using assms
proof (induction ts arbitrary: c)
  case Nil
  then show ?case by simp
next
  case (Cons t ts)
  obtain n a where t: "t = (n, a)" by (cases t)
  from Cons.prems obtain r where r: "acct c (snd t) = Some r" by auto
  have a_new: "a \<notin> snd ` set ts" using Cons.prems(2) t by simp
  have dist: "distinct (map snd ts)" using Cons.prems(2) by simp
  have sa: "is_staked (acct c) a \<longleftrightarrow> staked r" using r t by (simp add: is_staked_def)
  let ?U = "\<lambda>c. until_throttled env Claim (filter (is_staked (acct c)) (map snd ts))"
  have notin: "a \<notin> set (?U c1)" for c1
    using until_throttled_subset [of env Claim "filter (is_staked (acct c1)) (map snd ts)"] a_new
    by auto
  from claim_step_cases [OF r, of env]
  consider
    (idle) "\<not> staked r" "claim_step env t c = Next c"
  | (throttle) "staked r" "remote env Claim (snd t) = Inl TooManyRequestsError"
      "claim_step env t c = Return (issue (Call Claim (snd t)) c)"
  | (failure) e where "staked r" "remote env Claim (snd t) = Inl e" "e \<noteq> TooManyRequestsError"
      "claim_step env t c = Next (issue (Call Claim (snd t)) c)"
  | (success) "staked r" "remote env Claim (snd t) = Inr ()"
      "claim_step env t c = Next ((issue (Call Claim (snd t)) c)
             \<lparr>acct := (acct c)(snd t \<mapsto>
                 r\<lparr>last_claim_at := Some (Iso (now env Claim (snd t)))\<rparr>),
               claimed_count := claimed_count c + 1\<rparr>)"
    by blast
  then show ?case
  proof cases
    case idle
    have rows: "\<forall>t \<in> set ts. acct c (snd t) \<noteq> None" using Cons.prems(1) by simp
    from Cons.IH [OF rows dist] idle r t show ?thesis
      by (simp add: sa)
  next
    case throttle
    have "claim_effect env [a] (acct c) = acct c"
      using throttle(2) t by (simp add: claim_effect_skip)
    with throttle r t show ?thesis
      by (simp add: sa issue_def)
  next
    case (failure e)
    let ?c1 = "issue (Call Claim (snd t)) c"
    have rows: "\<forall>t \<in> set ts. acct ?c1 (snd t) \<noteq> None" using Cons.prems(1) by (simp add: issue_def)
    from Cons.IH [OF rows dist] obtain c' where
      c': "for_targets (claim_step env) ts ?c1 = Next c'
            \<or> for_targets (claim_step env) ts ?c1 = Return c'"
        "calls c' = calls ?c1 @ map (Call Claim) (?U ?c1)"
        "acct c' = claim_effect env (?U ?c1) (acct ?c1)"
        "kite_bal c' = kite_bal ?c1" "staked_count c' = staked_count ?c1"
        "unstaked_count c' = unstaked_count ?c1"
      by blast
    have same: "acct ?c1 = acct c" by (simp add: issue_def)
    have eff: "claim_effect env (a # ?U c) (acct c) = claim_effect env (?U c) (acct c)"
      using failure(2) t by (simp add: claim_effect_skip)
    from failure have nt: "remote env Claim a \<noteq> Inl TooManyRequestsError" using t by simp
    show ?thesis
      using c' failure(1,4) r t nt eff same
      by (intro exI [of _ c']) (auto simp: sa issue_def)
  next
    case success
    let ?c1 = "(issue (Call Claim (snd t)) c)
             \<lparr>acct := (acct c)(snd t \<mapsto>
                 r\<lparr>last_claim_at := Some (Iso (now env Claim (snd t)))\<rparr>),
               claimed_count := claimed_count c + 1\<rparr>"
    have acct1: "acct ?c1 = (acct c)(a \<mapsto> claimed_row env a r)"
      using t by (simp add: claimed_row_def issue_def)
    have rows: "\<forall>t \<in> set ts. acct ?c1 (snd t) \<noteq> None" using Cons.prems(1) by (simp add: issue_def)
    from Cons.IH [OF rows dist] obtain c' where
      c': "for_targets (claim_step env) ts ?c1 = Next c'
            \<or> for_targets (claim_step env) ts ?c1 = Return c'"
        "calls c' = calls ?c1 @ map (Call Claim) (?U ?c1)"
        "acct c' = claim_effect env (?U ?c1) (acct ?c1)"
        "kite_bal c' = kite_bal ?c1" "staked_count c' = staked_count ?c1"
        "unstaked_count c' = unstaked_count ?c1"
      by blast
    have st: "is_staked (acct ?c1) = is_staked (acct c)"
      unfolding acct1 using r t by (intro is_staked_claimed) simp
    then have U: "?U ?c1 = ?U c" by simp
    have eff: "claim_effect env (?U c) (acct ?c1) = claim_effect env (a # ?U c) (acct c)"
    proof (rule ext)
      fix s
      show "claim_effect env (?U c) (acct ?c1) s = claim_effect env (a # ?U c) (acct c) s"
        using notin [of c] success(2) r t
        by (cases "s = a") (auto simp: claim_effect_def acct1 claimed_row_def)
    qed
    from success have nt: "remote env Claim a \<noteq> Inl TooManyRequestsError" using t by simp
    show ?thesis
      using c'(1,2,4,5,6) c'(3) [unfolded U eff] success(1,3) r t nt U
      by (intro exI [of _ c']) (auto simp: sa issue_def)
  qed
qed

lemma claim_effect_frame:
  "map_option staked (claim_effect env called sub s) = map_option staked (sub s)
   \<and> map_option last_stake_at (claim_effect env called sub s) = map_option last_stake_at (sub s)
   \<and> map_option last_unstake_at (claim_effect env called sub s)
       = map_option last_unstake_at (sub s)"
  by (cases "sub s") (simp_all add: claim_effect_def claimed_row_def)

lemma targets_distinct: "distinct (map snd targets)"
  by (simp add: targets_eq)

text \<open>
  Claim C8. The claim phase visits the subnets in order and calls
  \<^verbatim>\<open>claim_rewards\<close> for each subnet whose row is staked, whatever its timestamps:
  the calls it issues are those of the staked subnets, up to the first throttled
  call (which ends the cycle, claim C5), so all of them when none is throttled. A
  successful claim writes \<open>last_claim_at\<close> of its own row and counts one claim;
  the \<open>staked\<close> flag, \<open>last_stake_at\<close> and \<open>last_unstake_at\<close> of every row are as
  before the phase.
\<close>

theorem claim_phase_frame:
  "(has_rows (acct c) \<longrightarrow>
     (\<exists>c'. (claim_phase env c = Next c' \<or> claim_phase env c = Return c')
        \<and> calls c' = calls c @ map (Call Claim)
             (until_throttled env Claim (filter (is_staked (acct c)) (map snd targets)))
        \<and> acct c' = claim_effect env
             (until_throttled env Claim (filter (is_staked (acct c)) (map snd targets)))
             (acct c)
        \<and> (\<forall>s. map_option staked (acct c' s) = map_option staked (acct c s)
              \<and> map_option last_stake_at (acct c' s) = map_option last_stake_at (acct c s)
              \<and> map_option last_unstake_at (acct c' s)
                  = map_option last_unstake_at (acct c s))))
   \<and> ((\<forall>a \<in> set xs. remote env Claim a \<noteq> Inl TooManyRequestsError)
        \<longrightarrow> until_throttled env Claim xs = xs)
   \<and> (acct c subnet = Some r \<and> staked r \<and> remote env Claim subnet = Inr ()
        \<longrightarrow> claim_step env (n, subnet) c
            = Next ((issue (Call Claim subnet) c)
                \<lparr>acct := (acct c)(subnet \<mapsto>
                    r\<lparr>last_claim_at := Some (Iso (now env Claim subnet))\<rparr>),
                  claimed_count := claimed_count c + 1\<rparr>))"
proof (intro conjI impI)
  assume "has_rows (acct c)"
  then have rows: "\<forall>t \<in> set targets. acct c (snd t) \<noteq> None" by (simp add: has_rows_def)
  from claim_loop [OF rows targets_distinct, of env] obtain c' where
    c': "for_targets (claim_step env) targets c = Next c'
          \<or> for_targets (claim_step env) targets c = Return c'"
      "calls c' = calls c @ map (Call Claim)
             (until_throttled env Claim (filter (is_staked (acct c)) (map snd targets)))"
      "acct c' = claim_effect env
             (until_throttled env Claim (filter (is_staked (acct c)) (map snd targets)))
             (acct c)"
    by blast
  from c'(3) have "\<forall>s. map_option staked (acct c' s) = map_option staked (acct c s)
              \<and> map_option last_stake_at (acct c' s) = map_option last_stake_at (acct c s)
              \<and> map_option last_unstake_at (acct c' s)
                  = map_option last_unstake_at (acct c s)"
    by (simp add: claim_effect_frame)
  with c' show "\<exists>c'. (claim_phase env c = Next c' \<or> claim_phase env c = Return c')
        \<and> calls c' = calls c @ map (Call Claim)
             (until_throttled env Claim (filter (is_staked (acct c)) (map snd targets)))
        \<and> acct c' = claim_effect env
             (until_throttled env Claim (filter (is_staked (acct c)) (map snd targets)))
             (acct c)
        \<and> (\<forall>s. map_option staked (acct c' s) = map_option staked (acct c s)
              \<and> map_option last_stake_at (acct c' s) = map_option last_stake_at (acct c s)
              \<and> map_option last_unstake_at (acct c' s)
                  = map_option last_unstake_at (acct c s))"
    unfolding claim_phase_def by blast
next
  assume "\<forall>a \<in> set xs. remote env Claim a \<noteq> Inl TooManyRequestsError"
  then show "until_throttled env Claim xs = xs" by (rule until_throttled_all)
next
  assume "acct c subnet = Some r \<and> staked r \<and> remote env Claim subnet = Inr ()"
  then show "claim_step env (n, subnet) c
            = Next ((issue (Call Claim subnet) c)
                \<lparr>acct := (acct c)(subnet \<mapsto>
                    r\<lparr>last_claim_at := Some (Iso (now env Claim subnet))\<rparr>),
                  claimed_count := claimed_count c + 1\<rparr>)"
    by (simp add: claim_step_def)
qed

lemma cyc_rows_claims:
  "has_rows (acct cyc_rows)
   \<and> filter (is_staked (acct cyc_rows)) (map snd targets) = [bitte_addr]
   \<and> (case claim_phase env_all_ok cyc_rows of Next c \<Rightarrow> True | _ \<Rightarrow> False)"
  by (simp add: has_rows_def targets_eq cyc_rows_def is_staked_def kite_addr_def
        bitte_addr_def bitmind_addr_def bitte_row_def default_row_def claim_phase_def
        claim_step_def env_all_ok_def issue_def)

theorem claim_phase_frame_witness:
  "has_rows (acct cyc_rows)
   \<and> (\<exists>c'. claim_phase env_all_ok cyc_rows = Next c'
         \<and> calls c' = [GetBalances, Call Claim bitte_addr]
         \<and> acct c' bitte_addr = Some (bitte_row\<lparr>last_claim_at := Some (Iso 100)\<rparr>)
         \<and> map_option staked (acct c' bitte_addr) = Some True
         \<and> map_option last_stake_at (acct c' bitte_addr) = Some (Some (Iso 5))
         \<and> acct c' kite_addr = Some (default_row ''Kite AI Agents''))"
proof -
  note inst = claim_phase_frame [where c = cyc_rows and env = env_all_ok, THEN conjunct1]
  have rows: "has_rows (acct cyc_rows)" using cyc_rows_claims by simp
  have U: "until_throttled env_all_ok Claim
             (filter (is_staked (acct cyc_rows)) (map snd targets)) = [bitte_addr]"
    using cyc_rows_claims by (simp add: env_all_ok_def)
  from inst rows obtain c' where
    c': "claim_phase env_all_ok cyc_rows = Next c' \<or> claim_phase env_all_ok cyc_rows = Return c'"
      "calls c' = calls cyc_rows @ map (Call Claim) [bitte_addr]"
      "acct c' = claim_effect env_all_ok [bitte_addr] (acct cyc_rows)"
    unfolding U by blast
  from c'(1) cyc_rows_claims have n: "claim_phase env_all_ok cyc_rows = Next c'" by auto
  have a: "acct c' bitte_addr = Some (bitte_row\<lparr>last_claim_at := Some (Iso 100)\<rparr>)"
    "acct c' kite_addr = Some (default_row ''Kite AI Agents'')"
    unfolding c'(3)
    by (simp_all add: claim_effect_def claimed_row_def cyc_rows_def env_all_ok_def
          kite_addr_def bitte_addr_def bitmind_addr_def)
  from rows n c'(2) a show ?thesis
    by (auto simp: cyc_rows_def bitte_row_def)
qed

section \<open>The staking cycle on examples\<close>

lemmas cycle_defs =
  staking_cycle_def ensure_account_state_def subnets_of_def targets_eq ensure_subnet_def
  run_phases_def stake_phase_def claim_phase_def unstake_phase_def restake_phase_def
  and_then_def stake_step_def claim_step_def unstake_step_def issue_def saving_def
  with_subnets_def kite_or_zero_def STAKE_MIN_def UNSTAKE_AFTER_HOURS_def default_row_def
  hours_since_def or_zero_def Let_def

lemma all_ok_run:
  "map_sum id (\<lambda>res. (counts res, issued res, saved res \<noteq> None,
       map_option (\<lambda>r. (staked r, last_stake_at r)) (position (memory res) ''0xA1'' kite_addr)))
     (staking_cycle env_all_ok st_bitte ''0xA1'')
   = Inr ((2, 3, 0),
        [GetBalances, Call Stake kite_addr,
         Call Stake ''0xc368ae279275f80125284d16d292b650ecbbff8d'',
         Call Claim kite_addr, Call Claim bitte_addr,
         Call Claim ''0xc368ae279275f80125284d16d292b650ecbbff8d'', GetBalances],
        True, Some (True, Some (Iso 100)))"
  by (simp add: cycle_defs env_all_ok_def st_bitte_def bitte_row_def bitte_addr_def
        kite_addr_def position_def)

lemma st_bitte_ok: "state_ok st_bitte"
  by (auto simp: state_ok_def position_def st_bitte_def row_ok_def bitte_row_def
           split: if_splits)

theorem staking_keeps_stake_timestamp_witness:
  "state_ok st_bitte
   \<and> (\<exists>res. staking_cycle env_all_ok st_bitte ''0xA1'' = Inr res
         \<and> state_ok (memory res)
         \<and> saved res = Some (memory res)
         \<and> map_option (\<lambda>r. (staked r, last_stake_at r))
              (position (memory res) ''0xA1'' kite_addr) = Some (True, Some (Iso 100))
         \<and> position (memory res) ''0xA1'' bitte_addr \<noteq> None)
   \<and> position st_bitte ''0xA1'' bitte_addr \<noteq> None"
proof -
  note inst = staking_keeps_stake_timestamp
    [where st = st_bitte and env = env_all_ok and address = "''0xA1''" and a = "''0xA1''"
       and s = bitte_addr]
  have p: "position st_bitte ''0xA1'' bitte_addr \<noteq> None"
    by (simp add: position_def st_bitte_def bitte_addr_def)
  from inst st_bitte_ok obtain res where
    r: "staking_cycle env_all_ok st_bitte ''0xA1'' = Inr res" and
    ok: "state_ok (memory res)" and
    sv: "saved res = None \<or> saved res = Some (memory res)"
    by blast
  from inst r p have k: "position (memory res) ''0xA1'' bitte_addr \<noteq> None"
    by auto
  from all_ok_run r have e: "map_option (\<lambda>r. (staked r, last_stake_at r))
              (position (memory res) ''0xA1'' kite_addr) = Some (True, Some (Iso 100))"
    and n: "saved res \<noteq> None"
    by simp_all
  from sv n have "saved res = Some (memory res)" by simp
  with st_bitte_ok r ok e k p show ?thesis by simp
qed

section \<open>Throttled calls and the state file\<close>

lemma replay_snoc [simp]: "replay env sub (xs @ [x]) = replay_call env (replay env sub xs) x"
  by (simp add: replay_def)



lemma replay_balances [simp]: "replay_call env sub GetBalances = sub"
  by (simp add: replay_call_def)












section \<open>Properties of the chat budget allocator\<close>

lemma outcomes_append [simp]: "outcomes (xs @ ys) = outcomes xs @ outcomes ys"
  by (induction xs rule: outcomes.induct) simp_all

lemma attempted_append [simp]: "attempted (xs @ ys) = attempted xs @ attempted ys"
  by (induction xs rule: attempted.induct) simp_all

lemma streak_snoc [simp]: "streak (xs @ [out]) = streak_step (streak xs) out"
  by (simp add: streak_def)

lemma streak_Nil [simp]: "streak [] = 0"
  by (simp add: streak_def)

lemma streak_throttles: "foldl streak_step k (replicate n ChatThrottled) = k + n"
  by (induction n arbitrary: k) simp_all

lemma streak_replicate: "streak (xs @ replicate n ChatThrottled) = streak xs + n"
  by (simp add: streak_def streak_throttles)

lemma no_overrun_Nil [simp]: "no_overrun []"
  by (simp add: no_overrun_def)

lemma no_overrun_snoc:
  assumes "no_overrun xs" "streak xs < 5"
  shows "no_overrun (xs @ [out])"
  unfolding no_overrun_def
proof (intro allI impI)
  fix pre post assume a: "xs @ [out] = pre @ post \<and> post \<noteq> []"
  then obtain ps p where post: "post = ps @ [p]" by (cases post rule: rev_cases) auto
  with a have eq: "xs = pre @ ps" by simp
  show "streak pre < 5"
  proof (cases "ps = []")
    case True
    with eq assms(2) show ?thesis by simp
  next
    case False
    with eq assms(1) show ?thesis unfolding no_overrun_def by blast
  qed
qed

lemma no_overrun_five:
  assumes "no_overrun outs" "outs = pre @ replicate 5 ChatThrottled @ post"
  shows "post = []"
proof (rule ccontr)
  assume "post \<noteq> []"
  moreover have "outs = (pre @ replicate 5 ChatThrottled) @ post" using assms(2) by simp
  ultimately have "streak (pre @ replicate 5 ChatThrottled) < 5"
    using assms(1) unfolding no_overrun_def by blast
  then show False by (simp add: streak_replicate)
qed

lemma chat_start_inv: "chat_inv (chat_start cache) \<and> \<not> hit_global_limit (chat_start cache)"
  by (simp add: chat_inv_def chat_start_def GLOBAL_DAILY_CHAT_CAP_def)

lemma record_send_inv:
  assumes "chat_inv c" "\<not> hit_global_limit c" "total_success_today c < GLOBAL_DAILY_CHAT_CAP"
    and "record_send env a m c = (brk, c')"
  shows "chat_inv c' \<and> (brk \<longleftrightarrow> hit_global_limit c')"
proof -
  from assms(1,2) have lt: "streak (outcomes (events c)) < 5"
    by (simp add: chat_inv_def)
  then have no: "no_overrun (outcomes (events c) @ [out])" for out
    using assms(1) by (intro no_overrun_snoc) (simp_all add: chat_inv_def)
  show ?thesis
  proof (cases "send env (sent c)")
    case ChatOk
    with assms show ?thesis
      using no [of ChatOk]
      by (auto simp: record_send_def chat_inv_def Let_def GLOBAL_DAILY_CHAT_CAP_def)
  next
    case ChatThrottled
    with assms show ?thesis
      using no [of ChatThrottled]
      by (auto simp: record_send_def chat_inv_def Let_def GLOBAL_DAILY_CHAT_CAP_def
               split: if_splits)
  next
    case ChatFailed
    with assms show ?thesis
      using no [of ChatFailed]
      by (auto simp: record_send_def chat_inv_def Let_def GLOBAL_DAILY_CHAT_CAP_def)
  qed
qed

lemma chat_inv_cache [simp]: "chat_inv (c\<lparr>tx_cache := x\<rparr>) = chat_inv c"
  by (simp add: chat_inv_def)

lemma chat_slot_inv:
  assumes "chat_inv c" "\<not> hit_global_limit c" "chat_slot env topics a c = (brk, c')"
  shows "chat_inv c' \<and> (hit_global_limit c' \<longrightarrow> brk)"
proof (cases "total_success_today c \<ge> GLOBAL_DAILY_CHAT_CAP")
  case True
  with assms show ?thesis by (simp add: chat_slot_def)
next
  case False
  show ?thesis
  proof (cases "next_message env topics a c")
    case None
    with False assms show ?thesis by (simp add: chat_slot_def)
  next
    case (Some mc)
    obtain m cache' where mc: "mc = (m, cache')" by (cases mc)
    from assms(3) False Some mc
    have "record_send env a m (c\<lparr>tx_cache := cache'\<rparr>) = (brk, c')"
      by (simp add: chat_slot_def)
    from record_send_inv [OF _ _ _ this] assms(1,2) False
    show ?thesis by simp
  qed
qed

lemma agent_loop_inv:
  "chat_inv c \<Longrightarrow> \<not> hit_global_limit c \<Longrightarrow> chat_inv (agent_loop env topics a n c)"
proof (induction n arbitrary: c)
  case 0
  then show ?case by simp
next
  case (Suc n)
  obtain brk c' where s: "chat_slot env topics a c = (brk, c')"
    by (cases "chat_slot env topics a c")
  from chat_slot_inv [OF Suc.prems s] have c': "chat_inv c'" "hit_global_limit c' \<longrightarrow> brk"
    by simp_all
  show ?case
  proof (cases brk)
    case True
    with s c' show ?thesis by simp
  next
    case False
    with c' have "\<not> hit_global_limit c'" by simp
    with Suc.IH c'(1) s False show ?thesis by simp
  qed
qed

lemma first_pass_inv:
  "chat_inv c \<Longrightarrow> \<not> hit_global_limit c \<Longrightarrow> chat_inv (first_pass env cpa topics agents c)"
proof (induction agents arbitrary: c)
  case Nil
  then show ?case by simp
next
  case (Cons a agents)
  let ?c' = "agent_loop env topics a
    (nat (min cpa (int GLOBAL_DAILY_CHAT_CAP - int (total_success_today c)))) c"
  have "chat_inv ?c'" using Cons.prems by (rule agent_loop_inv)
  with Cons.IH [of ?c'] Cons.prems show ?case
    by (simp add: Let_def)
qed

lemma extra_pass_inv:
  "chat_inv c \<Longrightarrow> \<not> hit_global_limit c \<Longrightarrow> chat_inv (extra_pass env topics agents c)"
proof (induction agents arbitrary: c)
  case Nil
  then show ?case by simp
next
  case (Cons a agents)
  show ?case
  proof (cases "total_success_today c \<ge> GLOBAL_DAILY_CHAT_CAP")
    case True
    with Cons.prems show ?thesis by simp
  next
    case False
    show ?thesis
    proof (cases "next_message env topics a c")
      case None
      with False Cons show ?thesis by simp
    next
      case (Some mc)
      obtain m cache' where mc: "mc = (m, cache')" by (cases mc)
      obtain brk c' where r: "record_send env a m (c\<lparr>tx_cache := cache'\<rparr>) = (brk, c')"
        by (cases "record_send env a m (c\<lparr>tx_cache := cache'\<rparr>)")
      from record_send_inv [OF _ _ _ r] Cons.prems False
      have c': "chat_inv c'" "brk \<longleftrightarrow> hit_global_limit c'" by simp_all
      show ?thesis
      proof (cases brk)
        case True
        with False Some mc r c' show ?thesis by simp
      next
        case False
        with c' have "\<not> hit_global_limit c'" by simp
        with Cons.IH [of c'] c'(1) \<open>\<not> total_success_today c \<ge> GLOBAL_DAILY_CHAT_CAP\<close>
          Some mc r False
        show ?thesis by simp
      qed
    qed
  qed
qed

lemma extra_round_inv:
  assumes "chat_inv c" "\<not> hit_global_limit c" "total_success_today c < GLOBAL_DAILY_CHAT_CAP"
  shows "chat_inv (c\<lparr>events := events c @ [ExtraRound]\<rparr>)"
  using assms by (simp add: chat_inv_def)

lemma chat_rounds_inv: "chat_inv (chat_rounds env cpa topics cache)"
proof -
  let ?c1 = "first_pass env cpa topics AGENT_ORDER (chat_start cache)"
  have c1: "chat_inv ?c1"
    using chat_start_inv by (intro first_pass_inv) simp_all
  show ?thesis
  proof (cases "extra_round_due cpa ?c1")
    case True
    then have d: "\<not> hit_global_limit ?c1" "total_success_today ?c1 < GLOBAL_DAILY_CHAT_CAP"
      by (auto simp: extra_round_due_def)
    have e: "chat_inv (?c1\<lparr>events := events ?c1 @ [ExtraRound]\<rparr>)"
      using c1 d by (rule extra_round_inv)
    have "chat_inv (extra_pass env topics AGENT_ORDER
        (?c1\<lparr>events := events ?c1 @ [ExtraRound]\<rparr>))"
      using e d(1) by (intro extra_pass_inv) simp_all
    with True show ?thesis by (simp add: chat_rounds_def Let_def)
  next
    case False
    with c1 show ?thesis by (simp add: chat_rounds_def Let_def)
  qed
qed

lemmas chat_defs =
  chat_rounds_def chat_start_def extra_round_due_def chat_slot_def next_message_def
  record_send_def get_random_tx_hash_def pool_of_def sent_def choice_def
  GLOBAL_DAILY_CHAT_CAP_def AGENT_ORDER_def Let_def

lemma process_account_logged_in:
  assumes "smart_account env = Inr aa" "login env = Inr tok"
  shows "chat_events (process_account env cpa topics st cache address)
           = events (chat_rounds (chats env) cpa topics cache)"
    and "limit_hit (process_account env cpa topics st cache address)
           = hit_global_limit (chat_rounds (chats env) cpa topics cache)"
    and "staking_run (process_account env cpa topics st cache address)
           = Some (staking_cycle (staking env) st address)"
  using assms by (simp_all add: process_account_def Let_def)

lemma throttled_run:
  "chat_events (process_account env_chat_throttled 5 topics_professor st_bitte [] ''0xA1'')
     = replicate 5 (Attempt ''Professor'' ''What is Kite AI?'' ChatThrottled) @ [LimitTripped]"
  by (simp add: process_account_def env_chat_throttled_def chat_all_throttled_def
        topics_professor_def chat_defs numeral_eq_Suc)

text \<open>
  Claim C1, as the code has it. When the account is logged in and the trail of its chat
  phase has five throttled sends in a row, these five are its last sends (no chat attempt
  is made after them, in the first loop or in the extra round), the flag
  \<^verbatim>\<open>hit_global_limit\<close> is returned set, it was assigned exactly once, and that
  assignment is the last event of the chat phase. The staking cycle is not halted:
  \<^verbatim>\<open>process_account\<close> calls \<^verbatim>\<open>staking_cycle\<close> whatever the flag says.
\<close>

theorem global_limit_trips_once:
  assumes "smart_account env = Inr aa" and "login env = Inr tok"
    and "r = process_account env cpa topics st cache address"
    and "outcomes (chat_events r) = pre @ replicate 5 ChatThrottled @ post"
  shows "post = []
       \<and> limit_hit r
       \<and> count_list (chat_events r) LimitTripped = 1
       \<and> last (chat_events r) = LimitTripped
       \<and> staking_run r = Some (staking_cycle (staking env) st address)"
proof -
  let ?c = "chat_rounds (chats env) cpa topics cache"
  note p = process_account_logged_in [OF assms(1,2), of cpa topics st cache address]
  have inv: "chat_inv ?c" by (rule chat_rounds_inv)
  from assms(3,4) p(1) have o: "outcomes (events ?c) = pre @ replicate 5 ChatThrottled @ post"
    by simp
  from inv have "no_overrun (outcomes (events ?c))" by (simp add: chat_inv_def)
  from no_overrun_five [OF this o] have post: "post = []" .
  with o have "streak (outcomes (events ?c)) = streak pre + 5"
    by (simp add: streak_replicate)
  with inv have hit: "hit_global_limit ?c" by (simp add: chat_inv_def)
  with inv have "count_list (events ?c) LimitTripped = 1" "last (events ?c) = LimitTripped"
    by (simp_all add: chat_inv_def)
  with post hit p assms(3) show ?thesis by simp
qed

theorem global_limit_trips_once_witness:
  "limit_hit (process_account env_chat_throttled 5 topics_professor st_bitte [] ''0xA1'')
   \<and> count_list (chat_events
        (process_account env_chat_throttled 5 topics_professor st_bitte [] ''0xA1''))
        LimitTripped = 1
   \<and> staking_run (process_account env_chat_throttled 5 topics_professor st_bitte [] ''0xA1'')
       = Some (staking_cycle env_all_ok st_bitte ''0xA1'')"
proof -
  note inst = global_limit_trips_once
    [where env = env_chat_throttled and aa = "''0xAA''" and tok = "''token''" and cpa = 5
       and topics = topics_professor and st = st_bitte and cache = "[]"
       and address = "''0xA1''" and pre = "[]" and post = "[]", OF _ _ refl]
  have "smart_account env_chat_throttled = Inr ''0xAA''" "login env_chat_throttled = Inr ''token''"
    "staking env_chat_throttled = env_all_ok"
    by (simp_all add: env_chat_throttled_def)
  with inst throttled_run show ?thesis by (simp add: numeral_eq_Suc)
qed

text \<open>
  Against claim C1 as stated: a run whose five sends are all throttled, after which the
  staking cycle still issues its calls (here a \<^verbatim>\<open>delegate\<close> to the first subnet).
\<close>

theorem global_limit_does_not_stop_staking:
  "outcomes (chat_events
       (process_account env_chat_throttled 5 topics_professor st_bitte [] ''0xA1''))
     = replicate 5 ChatThrottled
   \<and> (\<exists>res. staking_run (process_account env_chat_throttled 5 topics_professor st_bitte [] ''0xA1'')
          = Some (Inr res)
        \<and> Call Stake kite_addr \<in> set (issued res))"
proof -
  have s: "staking_run (process_account env_chat_throttled 5 topics_professor st_bitte [] ''0xA1'')
       = Some (staking_cycle env_all_ok st_bitte ''0xA1'')"
    by (simp add: process_account_def env_chat_throttled_def Let_def)
  from all_ok_run obtain res where r: "staking_cycle env_all_ok st_bitte ''0xA1'' = Inr res"
    by (cases "staking_cycle env_all_ok st_bitte ''0xA1''") auto
  with all_ok_run have "Call Stake kite_addr \<in> set (issued res)" by simp
  with s r throttled_run show ?thesis by (simp add: numeral_eq_Suc)
qed

lemma next_message_None: "next_message env topics a c = None \<longleftrightarrow> \<not> has_message topics a"
  by (auto simp: next_message_def has_message_def Let_def split: prod.splits)

lemma next_message_Some:
  "next_message env topics a c = Some (m, cache') \<Longrightarrow> message_for topics a m"
  by (auto simp: next_message_def message_for_def Let_def choice_def
           split: prod.splits if_splits)

lemma record_send_events:
  assumes "record_send env a m c = (brk, c')"
  shows "events c' = events c @ Attempt a m (send env (sent c)) # (if brk then [LimitTripped] else [])"
    and "brk \<longrightarrow> hit_global_limit c'"
  using assms
  by (cases "send env (sent c)"; auto simp: record_send_def Let_def split: if_splits)+

lemma chat_slot_events:
  assumes "chat_slot env topics a c = (brk, c')"
  shows "\<exists>new. events c' = events c @ new \<and> ExtraRound \<notin> set new"
proof (cases "total_success_today c \<ge> GLOBAL_DAILY_CHAT_CAP")
  case True
  with assms show ?thesis by (simp add: chat_slot_def)
next
  case False
  show ?thesis
  proof (cases "next_message env topics a c")
    case None
    with False assms show ?thesis by (simp add: chat_slot_def)
  next
    case (Some mc)
    obtain m cache' where mc: "mc = (m, cache')" by (cases mc)
    from assms False Some mc
    have "record_send env a m (c\<lparr>tx_cache := cache'\<rparr>) = (brk, c')"
      by (simp add: chat_slot_def)
    from record_send_events(1) [OF this] show ?thesis by simp
  qed
qed

lemma agent_loop_events:
  "\<exists>new. events (agent_loop env topics a n c) = events c @ new \<and> ExtraRound \<notin> set new"
proof (induction n arbitrary: c)
  case 0
  show ?case by simp
next
  case (Suc n)
  obtain brk c' where s: "chat_slot env topics a c = (brk, c')"
    by (cases "chat_slot env topics a c")
  from chat_slot_events [OF s] obtain new where
    n: "events c' = events c @ new" "ExtraRound \<notin> set new" by blast
  show ?case
  proof (cases brk)
    case True
    with s n show ?thesis by simp
  next
    case False
    from Suc.IH [of c'] obtain new' where
      "events (agent_loop env topics a n c') = events c' @ new'" "ExtraRound \<notin> set new'"
      by blast
    with s n False show ?thesis by simp
  qed
qed

lemma first_pass_events:
  "\<exists>new. events (first_pass env cpa topics agents c) = events c @ new \<and> ExtraRound \<notin> set new"
proof (induction agents arbitrary: c)
  case Nil
  show ?case by simp
next
  case (Cons a agents)
  let ?c' = "agent_loop env topics a
    (nat (min cpa (int GLOBAL_DAILY_CHAT_CAP - int (total_success_today c)))) c"
  from agent_loop_events [of env topics a _ c] obtain new where
    n: "events ?c' = events c @ new" "ExtraRound \<notin> set new" by blast
  from Cons.IH [of ?c'] obtain new' where
    "events (first_pass env cpa topics agents ?c') = events ?c' @ new'" "ExtraRound \<notin> set new'"
    by blast
  with n show ?case by (simp add: Let_def)
qed

lemma first_pass_no_extra:
  "ExtraRound \<notin> set (events (first_pass env cpa topics agents (chat_start cache)))"
  using first_pass_events [of env cpa topics agents "chat_start cache"]
  by (auto simp: chat_start_def)

lemma extra_pass_trail:
  "\<exists>new k. events (extra_pass env topics agents c) = events c @ new
     \<and> ExtraRound \<notin> set new
     \<and> attempted new = take k (filter (has_message topics) agents)
     \<and> (\<forall>a m out. Attempt a m out \<in> set new \<longrightarrow> message_for topics a m)
     \<and> (k < length (filter (has_message topics) agents)
          \<longrightarrow> GLOBAL_DAILY_CHAT_CAP \<le> total_success_today (extra_pass env topics agents c)
            \<or> hit_global_limit (extra_pass env topics agents c))"
  (is "\<exists>new k. ?P agents c new k")
proof (induction agents arbitrary: c)
  case Nil
  have "?P [] c [] 0" by simp
  then show ?case by blast
next
  case (Cons a agents)
  show ?case
  proof (cases "total_success_today c \<ge> GLOBAL_DAILY_CHAT_CAP")
    case True
    then have "?P (a # agents) c [] 0" by simp
    then show ?thesis by blast
  next
    case False
    show ?thesis
    proof (cases "next_message env topics a c")
      case None
      then have h: "\<not> has_message topics a" by (simp add: next_message_None)
      from Cons.IH [of c] obtain new k where "?P agents c new k" by blast
      with None False h have "?P (a # agents) c new k" by simp
      then show ?thesis by blast
    next
      case (Some mc)
      obtain m cache' where mc: "mc = (m, cache')" by (cases mc)
      from Some have h: "has_message topics a" using next_message_None [of env topics a c] by simp
      from Some mc have mf: "message_for topics a m" by (simp add: next_message_Some)
      obtain brk c' where r: "record_send env a m (c\<lparr>tx_cache := cache'\<rparr>) = (brk, c')"
        by (cases "record_send env a m (c\<lparr>tx_cache := cache'\<rparr>)")
      note ev = record_send_events [OF r]
      show ?thesis
      proof (cases brk)
        case True
        with False Some mc r have e: "extra_pass env topics (a # agents) c = c'" by simp
        let ?new = "[Attempt a m (send env (sent c)), LimitTripped]"
        from ev True h mf have "?P (a # agents) c ?new 1"
          unfolding e by (simp add: sent_def)
        then show ?thesis by blast
      next
        case nb: False
        with False Some mc r
        have e: "extra_pass env topics (a # agents) c = extra_pass env topics agents c'" by simp
        from Cons.IH [of c'] obtain new k where p: "?P agents c' new k" by blast
        let ?new = "Attempt a m (send env (sent c)) # new"
        from ev nb h mf p have "?P (a # agents) c ?new (Suc k)"
          unfolding e by (auto simp: sent_def)
        then show ?thesis by blast
      qed
    qed
  qed
qed

text \<open>
  Claim C6. The trail of the chat phase has the event of the extra round exactly when
  \<^verbatim>\<open>chat_per_agent\<close> is 1 and the first loop over the agents ended below the cap and
  without the global-limit flag; otherwise the chat phase ends with the first loop.
  The extra round sends to the agents that have a message (topics, or the reserved
  agent with its fallback question) in the order of \<open>AGENT_ORDER\<close>, one send each,
  with a topic of the agent or the fallback question as the message; it leaves out
  agents at the end of that list only when the cap was reached or the flag was set,
  and in both cases the send that did it is the last of the chat phase.
\<close>

theorem extra_round_iff:
  assumes "c1 = first_pass env cpa topics AGENT_ORDER (chat_start cache)"
    and "r = chat_rounds env cpa topics cache"
  shows "(ExtraRound \<in> set (events r)
           \<longleftrightarrow> cpa = 1 \<and> total_success_today c1 < GLOBAL_DAILY_CHAT_CAP \<and> \<not> hit_global_limit c1)
       \<and> (ExtraRound \<notin> set (events r) \<longrightarrow> r = c1)
       \<and> (ExtraRound \<in> set (events r) \<longrightarrow>
            (\<exists>new k. events r = events c1 @ ExtraRound # new
               \<and> ExtraRound \<notin> set new
               \<and> attempted new = take k (filter (has_message topics) AGENT_ORDER)
               \<and> (\<forall>a m out. Attempt a m out \<in> set new \<longrightarrow> message_for topics a m)
               \<and> (k < length (filter (has_message topics) AGENT_ORDER)
                    \<longrightarrow> total_success_today r = GLOBAL_DAILY_CHAT_CAP \<or> hit_global_limit r)))
       \<and> (hit_global_limit r \<longrightarrow> last (events r) = LimitTripped)
       \<and> (total_success_today r = GLOBAL_DAILY_CHAT_CAP
            \<longrightarrow> (\<exists>a m. last (events r) = Attempt a m ChatOk))"
proof -
  have inv: "chat_inv r" unfolding assms(2) by (rule chat_rounds_inv)
  then have stop: "hit_global_limit r \<longrightarrow> last (events r) = LimitTripped"
    "total_success_today r = GLOBAL_DAILY_CHAT_CAP
       \<longrightarrow> (\<exists>a m. last (events r) = Attempt a m ChatOk)"
    by (simp_all add: chat_inv_def)
  show ?thesis
  proof (cases "extra_round_due cpa c1")
  case False
  with assms have "r = c1" by (simp add: chat_rounds_def Let_def)
  moreover have "ExtraRound \<notin> set (events c1)"
    unfolding assms(1) by (rule first_pass_no_extra)
  ultimately show ?thesis using False stop by (auto simp: extra_round_due_def)
next
  case True
  let ?c2 = "c1\<lparr>events := events c1 @ [ExtraRound]\<rparr>"
  from True assms have r: "r = extra_pass env topics AGENT_ORDER ?c2"
    by (simp add: chat_rounds_def Let_def)
  from extra_pass_trail [of env topics AGENT_ORDER ?c2] obtain new k where
    p: "events r = events ?c2 @ new" "ExtraRound \<notin> set new"
       "attempted new = take k (filter (has_message topics) AGENT_ORDER)"
       "\<forall>a m out. Attempt a m out \<in> set new \<longrightarrow> message_for topics a m"
       "k < length (filter (has_message topics) AGENT_ORDER)
          \<longrightarrow> GLOBAL_DAILY_CHAT_CAP \<le> total_success_today r \<or> hit_global_limit r"
    unfolding r by blast
  from inv have le: "total_success_today r \<le> GLOBAL_DAILY_CHAT_CAP" by (simp add: chat_inv_def)
  from p(1) have in_r: "ExtraRound \<in> set (events r)" by simp
  from p le have "\<exists>new k. events r = events c1 @ ExtraRound # new
               \<and> ExtraRound \<notin> set new
               \<and> attempted new = take k (filter (has_message topics) AGENT_ORDER)
               \<and> (\<forall>a m out. Attempt a m out \<in> set new \<longrightarrow> message_for topics a m)
               \<and> (k < length (filter (has_message topics) AGENT_ORDER)
                    \<longrightarrow> total_success_today r = GLOBAL_DAILY_CHAT_CAP \<or> hit_global_limit r)"
    by (intro exI [of _ new] exI [of _ k]) auto
  with in_r True stop show ?thesis by (auto simp: extra_round_due_def)
  qed
qed

lemma all_ok_chat_run:
  "(\<lambda>c. (events c, total_success_today c, hit_global_limit c))
     (chat_rounds chat_all_ok 1 topics_professor []) =
     ([Attempt ''Professor'' ''What is Kite AI?'' ChatOk,
       Attempt ''Sherlock'' (fallback_prefix @ ''0x5e1f'') ChatOk,
       ExtraRound,
       Attempt ''Professor'' ''What is Kite AI?'' ChatOk,
       Attempt ''Sherlock'' (fallback_prefix @ ''0x5e1f'') ChatOk], 4, False)"
  by (simp add: chat_all_ok_def topics_professor_def chat_defs)


lemma all_ok_first_pass:
  "(\<lambda>c. (events c, total_success_today c, hit_global_limit c))
     (first_pass chat_all_ok 1 topics_professor AGENT_ORDER (chat_start [])) =
     ([Attempt ''Professor'' ''What is Kite AI?'' ChatOk,
       Attempt ''Sherlock'' (fallback_prefix @ ''0x5e1f'') ChatOk], 2, False)"
  by (simp add: chat_all_ok_def topics_professor_def chat_defs)

theorem extra_round_iff_witness:
  "ExtraRound \<in> set (events (chat_rounds chat_all_ok 1 topics_professor []))
   \<and> events (chat_rounds chat_all_ok 1 topics_professor [])
       = events (first_pass chat_all_ok 1 topics_professor AGENT_ORDER (chat_start []))
         @ [ExtraRound,
            Attempt ''Professor'' ''What is Kite AI?'' ChatOk,
            Attempt ''Sherlock'' (fallback_prefix @ ''0x5e1f'') ChatOk]
   \<and> message_for topics_professor ''Sherlock'' (fallback_prefix @ ''0x5e1f'')
   \<and> filter (has_message topics_professor) AGENT_ORDER = [''Professor'', ''Sherlock'']
   \<and> chat_rounds chat_all_ok 2 topics_professor []
       = first_pass chat_all_ok 2 topics_professor AGENT_ORDER (chat_start [])"
proof -
  let ?c1 = "first_pass chat_all_ok 1 topics_professor AGENT_ORDER (chat_start [])"
  let ?r = "chat_rounds chat_all_ok 1 topics_professor []"
  note one = extra_round_iff
    [where env = chat_all_ok and cpa = 1 and topics = topics_professor and cache = "[]",
     OF refl refl]
  note two = extra_round_iff
    [where env = chat_all_ok and cpa = 2 and topics = topics_professor and cache = "[]",
     OF refl refl]
  from all_ok_first_pass have c1:
    "events ?c1 = [Attempt ''Professor'' ''What is Kite AI?'' ChatOk,
                   Attempt ''Sherlock'' (fallback_prefix @ ''0x5e1f'') ChatOk]"
    "total_success_today ?c1 = 2" "\<not> hit_global_limit ?c1"
    by simp_all
  from all_ok_chat_run have r:
    "events ?r = [Attempt ''Professor'' ''What is Kite AI?'' ChatOk,
       Attempt ''Sherlock'' (fallback_prefix @ ''0x5e1f'') ChatOk,
       ExtraRound,
       Attempt ''Professor'' ''What is Kite AI?'' ChatOk,
       Attempt ''Sherlock'' (fallback_prefix @ ''0x5e1f'') ChatOk]"
    by simp
  from one c1 have x: "ExtraRound \<in> set (events ?r)"
    by (simp add: GLOBAL_DAILY_CHAT_CAP_def)
  with one obtain new where
    n: "events ?r = events ?c1 @ ExtraRound # new"
       "\<forall>a m out. Attempt a m out \<in> set new \<longrightarrow> message_for topics_professor a m"
    by blast
  from n(1) r c1 have new: "new = [Attempt ''Professor'' ''What is Kite AI?'' ChatOk,
       Attempt ''Sherlock'' (fallback_prefix @ ''0x5e1f'') ChatOk]"
    by simp
  with n(2) have m: "message_for topics_professor ''Sherlock'' (fallback_prefix @ ''0x5e1f'')"
    by simp
  have f: "filter (has_message topics_professor) AGENT_ORDER = [''Professor'', ''Sherlock'']"
    by (simp add: has_message_def topics_professor_def pool_of_def AGENT_ORDER_def)
  from two have t: "chat_rounds chat_all_ok 2 topics_professor []
       = first_pass chat_all_ok 2 topics_professor AGENT_ORDER (chat_start [])"
    by simp
  from x n(1) new m f t show ?thesis by simp
qed







lemma sent_cache [simp]: "sent (c\<lparr>tx_cache := x\<rparr>) = sent c"
  by (simp add: sent_def)





end
